theory Spec2Isabelle
  imports Main "HOL-Library.Sublist" "HOL-Library.Multiset"
begin

section \<open>SunSpec model viewer: tree construction, tree search and catalog indexing\<close>

text \<open>
  A shallow embedding of the algorithmic core of the viewer: \<^verbatim>\<open>createTreeNode\<close> and
  \<^verbatim>\<open>filterNode\<close> of the tree view, \<^verbatim>\<open>extractModelInfo\<close>, \<^verbatim>\<open>getAllModelsWithMetadata\<close>
  and \<^verbatim>\<open>categorizeModels\<close> of the GitHub service, and \<^verbatim>\<open>handleModelSelect\<close> of the
  application shell.

  Conventions. A JavaScript string is a \<^typ>\<open>string\<close>, and a \<^typ>\<open>char\<close> is one of its
  code units, with its code: the strings of the model are those whose code units are
  below 256 (ISO 8859-1). A JavaScript number that holds an id, an index or a level is
  an \<^typ>\<open>int\<close> or a \<^typ>\<open>nat\<close>: a double is exact on the integers of magnitude up to
  \<open>2^53\<close>, and a statement that depends on the value of a number parsed or printed
  carries that bound. An optional property \<^verbatim>\<open>f?: T\<close> is a \<^typ>\<open>'a option\<close>,
  \<^verbatim>\<open>undefined\<close> being \<^const>\<open>None\<close>.
\<close>

subsection \<open>Strings\<close>

text \<open>
  \<^verbatim>\<open>String.prototype.toLowerCase\<close>, code unit by code unit. Below 256 the code units
  with a lower-case form are 65 to 90 (\<open>A\<close> to \<open>Z\<close>), 192 to 214 and 216 to 222 (the
  accented capitals; 215 is the multiplication sign); the form is 32 above.
\<close>

definition lower_char :: "char \<Rightarrow> char" where
  "lower_char c =
     (if ((65::nat) \<le> of_char c \<and> of_char c \<le> (90::nat))
         \<or> ((192::nat) \<le> of_char c \<and> of_char c \<le> (214::nat))
         \<or> ((216::nat) \<le> of_char c \<and> of_char c \<le> (222::nat))
      then char_of (of_char c + (32::nat)) else c)"

definition toLowerCase :: "string \<Rightarrow> string" where
  "toLowerCase s = map lower_char s"

text \<open>\<^verbatim>\<open>s.includes(t)\<close>: \<open>t\<close> occurs in \<open>s\<close> as a contiguous block.\<close>

fun str_includes :: "string \<Rightarrow> string \<Rightarrow> bool" where
  "str_includes [] t = (t = [])"
| "str_includes (c # cs) t = (prefix t (c # cs) \<or> str_includes cs t)"

text \<open>\<^verbatim>\<open>s.endsWith(t)\<close>.\<close>

definition endsWith :: "string \<Rightarrow> string \<Rightarrow> bool" where
  "endsWith s t = suffix t s"

text \<open>
  The decimal numeral a template literal prints for an integer: all its digits, for a
  number of magnitude below \<open>10^21\<close>. Indices of arrays are far below; the id of a
  model is printed into the name of the root, and the statement about that name bounds
  the id.
\<close>

definition digit_char :: "nat \<Rightarrow> char" where
  "digit_char d = char_of ((48::nat) + d)"

fun string_of_nat :: "nat \<Rightarrow> string" where
  "string_of_nat n =
     (if n < 10 then [digit_char n] else string_of_nat (n div 10) @ [digit_char (n mod 10)])"

declare string_of_nat.simps [simp del]

definition string_of_int :: "int \<Rightarrow> string" where
  "string_of_int i = (if i < 0 then CHR ''-'' # string_of_nat (nat (- i)) else string_of_nat (nat i))"

definition is_digit :: "char \<Rightarrow> bool" where
  "is_digit c = ((48::nat) \<le> of_char c \<and> of_char c \<le> (57::nat))"

text \<open>
  \<^verbatim>\<open>parseInt\<close> on a run of decimal digits, which is all the modelled code passes to it:
  the number the digits denote. The code's result is a double, which is that number
  where it is at most \<open>2^53\<close> and the nearest double above; the model is exact
  throughout, and the statement about a parsed id bounds the number.
\<close>

definition digit_value :: "char \<Rightarrow> nat" where
  "digit_value c = of_char c - 48"

definition parseInt :: "string \<Rightarrow> nat" where
  "parseInt ds = foldl (\<lambda>acc c. 10 * acc + digit_value c) 0 ds"

subsection \<open>The data model (\<^verbatim>\<open>types\<close>)\<close>

text \<open>
  The interfaces \<^verbatim>\<open>Symbol\<close>, \<^verbatim>\<open>Point\<close>, \<^verbatim>\<open>Group\<close>, \<^verbatim>\<open>SunSpecModel\<close>, \<^verbatim>\<open>TreeNode\<close> and
  \<^verbatim>\<open>ModelInfo\<close>. The properties \<^verbatim>\<open>detail\<close>, \<^verbatim>\<open>notes\<close>, \<^verbatim>\<open>comments\<close>, \<^verbatim>\<open>standards\<close>,
  \<^verbatim>\<open>static\<close> and a point's \<^verbatim>\<open>value\<close> and \<^verbatim>\<open>count\<close>, which no modelled function reads, are
  left out. A property typed \<^verbatim>\<open>number | string\<close> is a \<open>num_or_str\<close>.
\<close>

datatype num_or_str = Num int | Str string

datatype access = R | RW

datatype mandatory = M | O

datatype group_type = group | sync

record Symbol =
  symbol_name :: string
  symbol_value :: num_or_str
  symbol_label :: "string option"
  symbol_desc :: "string option"

record Point =
  point_name :: string
  point_type :: string
  point_size :: int
  point_sf :: "num_or_str option"
  point_units :: "string option"
  point_access :: "access option"
  point_mandatory :: "mandatory option"
  point_label :: "string option"
  point_desc :: "string option"
  point_symbols :: "Symbol list option"

datatype Group = Group
  (group_name: string)
  (group_kind: group_type)
  (group_count: "num_or_str option")
  (points: "Point list option")
  (groups: "Group list option")
  (group_label: "string option")
  (group_desc: "string option")

text \<open>
  \<^verbatim>\<open>SunSpecModel.group\<close> is declared mandatory, but \<^verbatim>\<open>createTreeNode\<close> tests it
  (\<^verbatim>\<open>if (modelData.group)\<close>), so the model keeps it optional.
\<close>

record SunSpecModel =
  model_id :: int
  model_group :: "Group option"
  model_label :: "string option"
  model_desc :: "string option"

datatype node_type = model | group_node | point

text \<open>
  \<^verbatim>\<open>TreeNode.data\<close>: the model, group or point a node was built from. The interface
  declares it optional; \<^verbatim>\<open>createTreeNode\<close> always sets it, and \<^verbatim>\<open>filterNode\<close> only ever
  sees nodes that \<^verbatim>\<open>createTreeNode\<close> built, so a node of the model always carries it.
\<close>

datatype node_data = ModelData SunSpecModel | GroupData Group | PointData Point

datatype TreeNode = TreeNode
  (node_id: string)
  (node_name: string)
  (node_label: "string option")
  (node_kind: node_type)
  (isExpanded: bool)
  (children: "TreeNode list")
  (node_data: node_data)
  (level: int)

text \<open>The \<^verbatim>\<open>desc\<close> property of whatever a node carries, as \<^verbatim>\<open>(node.data as Point).desc\<close> reads it.\<close>

fun data_desc :: "node_data \<Rightarrow> string option" where
  "data_desc (ModelData m) = model_desc m"
| "data_desc (GroupData g) = group_desc g"
| "data_desc (PointData p) = point_desc p"

subsection \<open>\<^verbatim>\<open>createTreeNode\<close> and \<^verbatim>\<open>buildTree\<close>\<close>

text \<open>
  \<^verbatim>\<open>createTreeNode(id, name, label, type, data, level)\<close> closes over the set
  \<^verbatim>\<open>expandedNodes\<close>, here its first argument. The two \<^verbatim>\<open>forEach\<close> loops that push the
  children of a group are \<open>pushPoints\<close> and \<open>pushGroups\<close>, which carry the loop index.
  A \<^verbatim>\<open>type\<close> that does not fit the \<^verbatim>\<open>data\<close> finds none of the properties it reads and
  pushes no child.
\<close>

function createTreeNode ::
    "string set \<Rightarrow> string \<Rightarrow> string \<Rightarrow> string option \<Rightarrow> node_type \<Rightarrow> node_data \<Rightarrow> int \<Rightarrow> TreeNode"
  and pushPoints :: "string set \<Rightarrow> string \<Rightarrow> int \<Rightarrow> nat \<Rightarrow> Point list \<Rightarrow> TreeNode list"
  and pushGroups :: "string set \<Rightarrow> string \<Rightarrow> int \<Rightarrow> nat \<Rightarrow> Group list \<Rightarrow> TreeNode list"
where
  "createTreeNode expandedNodes ident name label ty dat lvl =
     TreeNode ident name label ty (ident \<in> expandedNodes)
       (case ty of
          model \<Rightarrow>
            (case dat of
               ModelData modelData \<Rightarrow>
                 (case model_group modelData of
                    Some g \<Rightarrow>
                      [createTreeNode expandedNodes (ident @ ''_group'') (group_name g)
                         (group_label g) group_node (GroupData g) (lvl + 1)]
                  | None \<Rightarrow> [])
             | _ \<Rightarrow> [])
        | group_node \<Rightarrow>
            (case dat of
               GroupData groupData \<Rightarrow>
                 (case points groupData of
                    Some ps \<Rightarrow> pushPoints expandedNodes ident lvl 0 ps
                  | None \<Rightarrow> [])
                 @ (case groups groupData of
                      Some gs \<Rightarrow> pushGroups expandedNodes ident lvl 0 gs
                    | None \<Rightarrow> [])
             | _ \<Rightarrow> [])
        | point \<Rightarrow> [])
       dat lvl"
| "pushPoints expandedNodes ident lvl index [] = []"
| "pushPoints expandedNodes ident lvl index (p # ps) =
     createTreeNode expandedNodes (ident @ ''_point_'' @ string_of_nat index) (point_name p)
         (point_label p) point (PointData p) (lvl + 1)
       # pushPoints expandedNodes ident lvl (index + 1) ps"
| "pushGroups expandedNodes ident lvl index [] = []"
| "pushGroups expandedNodes ident lvl index (g # gs) =
     createTreeNode expandedNodes (ident @ ''_group_'' @ string_of_nat index) (group_name g)
         (group_label g) group_node (GroupData g) (lvl + 1)
       # pushGroups expandedNodes ident lvl (index + 1) gs"
  by pat_completeness auto
termination
  apply (relation "measures
     [\<lambda>x. case x of
         Inl (_, _, _, _, _, d, _) \<Rightarrow>
           (case d of
              GroupData g \<Rightarrow> 2 * size g + 1
            | ModelData m \<Rightarrow> (case model_group m of Some g \<Rightarrow> 2 * size g + 2 | None \<Rightarrow> 0)
            | PointData _ \<Rightarrow> 0)
       | Inr (Inl _) \<Rightarrow> 1
       | Inr (Inr (_, _, _, _, gs)) \<Rightarrow> 2 * size_list size gs + 2,
      \<lambda>x. case x of
         Inr (Inl (_, _, _, _, ps)) \<Rightarrow> length ps
       | _ \<Rightarrow> 0]")
      apply simp_all
  subgoal for ty dat g ps by (cases g) simp
  subgoal for ty dat g gs by (cases g) simp
  done

declare createTreeNode.simps [simp del]

text \<open>
  \<^verbatim>\<open>buildTree\<close>: the root call
  \<^verbatim>\<open>createTreeNode('root', `Model ${model.id}`, model.label, 'model', model)\<close>, at the
  default level 0.
\<close>

definition buildTree :: "SunSpecModel \<Rightarrow> string set \<Rightarrow> TreeNode" where
  "buildTree m expandedNodes =
     createTreeNode expandedNodes ''root'' (''Model '' @ string_of_int (model_id m))
       (model_label m) model (ModelData m) 0"

subsection \<open>\<^verbatim>\<open>filterNode\<close> and \<^verbatim>\<open>filteredTree\<close>\<close>

text \<open>
  \<^verbatim>\<open>matchesSearch\<close>: the three disjuncts of the source. \<^verbatim>\<open>node.label?.toLowerCase()\<close> and
  \<^verbatim>\<open>desc?.toLowerCase()\<close> are \<^verbatim>\<open>undefined\<close>, hence falsy, on an absent property.
\<close>

definition matchesSearch :: "string \<Rightarrow> TreeNode \<Rightarrow> bool" where
  "matchesSearch searchTerm node =
     (str_includes (toLowerCase (node_name node)) (toLowerCase searchTerm)
      \<or> (case node_label node of
            Some l \<Rightarrow> str_includes (toLowerCase l) (toLowerCase searchTerm)
          | None \<Rightarrow> False)
      \<or> (node_kind node = point
          \<and> (case data_desc (node_data node) of
                Some d \<Rightarrow> str_includes (toLowerCase d) (toLowerCase searchTerm)
              | None \<Rightarrow> False)))"

text \<open>
  \<^verbatim>\<open>filterNode\<close>: \<^verbatim>\<open>null\<close> is \<^const>\<open>None\<close>; \<^verbatim>\<open>.map(child => filterNode(child)).filter(Boolean)\<close>
  keeps the children whose result is a node.
\<close>

fun filterNode :: "string \<Rightarrow> TreeNode \<Rightarrow> TreeNode option" where
  "filterNode searchTerm (TreeNode i n l ty e cs d lv) =
     (if matchesSearch searchTerm (TreeNode i n l ty e cs d lv)
         \<or> length (map the (filter (\<lambda>r. r \<noteq> None) (map (filterNode searchTerm) cs))) > 0
      then Some (TreeNode i n l ty True
                   (map the (filter (\<lambda>r. r \<noteq> None) (map (filterNode searchTerm) cs))) d lv)
      else None)"

text \<open>\<^verbatim>\<open>filteredTree\<close>: an empty search term returns the built tree itself.\<close>

definition filteredTree :: "string \<Rightarrow> TreeNode \<Rightarrow> TreeNode option" where
  "filteredTree searchTerm tree =
     (if searchTerm = [] then Some tree else filterNode searchTerm tree)"

subsection \<open>The GitHub service: \<^verbatim>\<open>extractModelInfo\<close>\<close>

text \<open>
  A fetched document is what \<^verbatim>\<open>response.json()\<close> returns, typed \<^verbatim>\<open>any\<close>. The model
  keeps the four properties the code reads, each optional and of its declared type, and
  the one value on which a property read throws, \<^verbatim>\<open>null\<close>. A JSON number, string,
  boolean or array has none of the four properties and behaves as a record without them.
\<close>

record ModelDocument =
  doc_id :: "int option"
  doc_group :: "Group option"
  doc_label :: "string option"
  doc_desc :: "string option"

datatype json_document = Json_null | Json_record ModelDocument

text \<open>
  Exceptions: an \<^verbatim>\<open>Error\<close> with its message, and the \<^verbatim>\<open>TypeError\<close> of a property read
  on \<^verbatim>\<open>null\<close>, which carries the name of the property.
\<close>

datatype js_error = Error string | TypeError string

text \<open>The result of \<^verbatim>\<open>extractModelInfo\<close>, and \<^verbatim>\<open>ModelInfo\<close>, which adds the file name.\<close>

record ExtractedInfo =
  info_id :: int
  info_name :: string
  info_label :: "string option"
  info_desc :: "string option"

record ModelInfo = ExtractedInfo +
  filename :: string

text \<open>
  \<^verbatim>\<open>filename.match(/model_(\d+)\.json/)\<close>, as far as the code uses it: the capture group
  of the leftmost match, if there is a match. At a start position the expression needs
  \<^verbatim>\<open>model_\<close>, then digits, then \<^verbatim>\<open>.json\<close>; the greedy \<^verbatim>\<open>\d+\<close> takes the whole run of
  digits, and a shorter run cannot be followed by the dot.
\<close>

definition match_here :: "string \<Rightarrow> string option" where
  "match_here s =
     (if prefix ''model_'' s
      then (let rest = drop 6 s; ds = takeWhile is_digit rest
            in if ds \<noteq> [] \<and> prefix ''.json'' (dropWhile is_digit rest) then Some ds else None)
      else None)"

fun match_model_id :: "string \<Rightarrow> string option" where
  "match_model_id [] = None"
| "match_model_id (c # cs) =
     (case match_here (c # cs) of Some ds \<Rightarrow> Some ds | None \<Rightarrow> match_model_id cs)"

text \<open>
  \<^verbatim>\<open>s.replace(pat, rep)\<close> with a string pattern: the first occurrence of \<open>pat\<close> is
  replaced, and \<open>s\<close> is returned as it is when there is none.
\<close>

fun replace_first :: "string \<Rightarrow> string \<Rightarrow> string \<Rightarrow> string" where
  "replace_first pat rep [] = (if pat = [] then rep else [])"
| "replace_first pat rep (c # cs) =
     (if prefix pat (c # cs) then rep @ drop (length pat) (c # cs)
      else c # replace_first pat rep cs)"

text \<open>
  \<^verbatim>\<open>a || b\<close> on optional strings: the empty string and \<^verbatim>\<open>undefined\<close> are falsy.
\<close>

definition or_else :: "string option \<Rightarrow> string option \<Rightarrow> string option" where
  "or_else a b = (case a of Some x \<Rightarrow> (if x \<noteq> [] then Some x else b) | None \<Rightarrow> b)"

text \<open>
  \<^verbatim>\<open>extractModelInfo(filename, modelData)\<close>. On \<^verbatim>\<open>null\<close> the first property read throws:
  that of \<^verbatim>\<open>id\<close> when the file name does not match, that of \<^verbatim>\<open>label\<close> otherwise.
  \<^verbatim>\<open>modelData.id || 0\<close> is the id when it is present, 0 being its own default.
\<close>

fun extractModelInfo :: "string \<Rightarrow> json_document \<Rightarrow> js_error + ExtractedInfo" where
  "extractModelInfo fname Json_null =
     (case match_model_id fname of
        Some ds \<Rightarrow> Inl (TypeError ''label'')
      | None \<Rightarrow> Inl (TypeError ''id''))"
| "extractModelInfo fname (Json_record modelData) =
     Inr \<lparr>info_id =
            (case match_model_id fname of
               Some ds \<Rightarrow> int (parseInt ds)
             | None \<Rightarrow> (case doc_id modelData of
                          Some n \<Rightarrow> (if n \<noteq> 0 then n else 0)
                        | None \<Rightarrow> 0)),
          info_name = replace_first ''.json'' [] fname,
          info_label =
            or_else (doc_label modelData)
              (case doc_group modelData of Some g \<Rightarrow> group_label g | None \<Rightarrow> None),
          info_desc =
            or_else (doc_desc modelData)
              (case doc_group modelData of Some g \<Rightarrow> group_desc g | None \<Rightarrow> None)\<rparr>"

subsection \<open>The GitHub service: \<^verbatim>\<open>getModelList\<close>, \<^verbatim>\<open>getModel\<close>, \<^verbatim>\<open>getAllModelsWithMetadata\<close>\<close>

record GitHubFile =
  file_name :: string
  file_path :: string
  download_url :: string

text \<open>
  The network is a parameter. The listing request yields the files or fails (no
  response, a status that is not ok, a body that is not JSON); so does the request for
  the document of a file name. Either failure is caught and thrown again as an
  \<^verbatim>\<open>Error\<close> with the message of the source.
\<close>

definition getModelList :: "GitHubFile list option \<Rightarrow> js_error + GitHubFile list" where
  "getModelList response =
     (case response of
        None \<Rightarrow> Inl (Error ''Failed to load model list from GitHub'')
      | Some files \<Rightarrow> Inr (filter (\<lambda>file. endsWith (file_name file) ''.json'') files))"

definition getModel :: "(string \<Rightarrow> json_document option) \<Rightarrow> string \<Rightarrow> js_error + json_document" where
  "getModel documents fname =
     (case documents fname of
        None \<Rightarrow> Inl (Error (''Failed to load model: '' @ fname))
      | Some modelData \<Rightarrow> Inr modelData)"

text \<open>
  The body of the \<^verbatim>\<open>files.map(async (file) => ...)\<close> callback: the descriptor of a file,
  or \<^verbatim>\<open>null\<close> when the fetch or the extraction throws.
\<close>

definition load_file :: "(string \<Rightarrow> json_document option) \<Rightarrow> GitHubFile \<Rightarrow> ModelInfo option" where
  "load_file documents file =
     (case getModel documents (file_name file) of
        Inl err \<Rightarrow> None
      | Inr modelData \<Rightarrow>
          (case extractModelInfo (file_name file) modelData of
             Inl err \<Rightarrow> None
           | Inr info \<Rightarrow> Some (ExtractedInfo.extend info (ModelInfo.fields (file_name file)))))"

text \<open>
  \<^verbatim>\<open>Promise.all\<close> returns the results in the order of the promises, whatever the order
  in which they settle, so \<^verbatim>\<open>results\<close> is the list of the callback's results by file.
  \<^verbatim>\<open>validModels.sort((a, b) => a.id - b.id)\<close> is the stable sort of the language by the
  id, here \<^const>\<open>sort_key\<close>.
\<close>

definition getAllModelsWithMetadata ::
    "GitHubFile list option \<Rightarrow> (string \<Rightarrow> json_document option) \<Rightarrow> js_error + ModelInfo list" where
  "getAllModelsWithMetadata response documents =
     (case getModelList response of
        Inl err \<Rightarrow> Inl (Error ''Failed to load models from GitHub'')
      | Inr files \<Rightarrow>
          Inr (sort_key info_id
                (map the (filter (\<lambda>r. r \<noteq> None) (map (load_file documents) files)))))"

subsection \<open>The GitHub service: \<^verbatim>\<open>categorizeModels\<close>\<close>

record Category =
  range :: string
  description :: string
  models :: "ModelInfo list"

text \<open>
  The \<^verbatim>\<open>categories\<close> object: none of its keys is an array index, so its entries are
  enumerated in the order of insertion, which an association list keeps.
\<close>

definition categories_init :: "(string \<times> Category) list" where
  "categories_init =
     [(''1-99'', \<lparr>range = ''1-99'', description = ''Common & Basic Models'', models = []\<rparr>),
      (''100-199'', \<lparr>range = ''100-199'', description = ''Inverter Models'', models = []\<rparr>),
      (''200-299'', \<lparr>range = ''200-299'', description = ''Meter Models'', models = []\<rparr>),
      (''300-399'', \<lparr>range = ''300-399'', description = ''Environmental Models'', models = []\<rparr>),
      (''400-499'', \<lparr>range = ''400-499'', description = ''String Combiner Models'', models = []\<rparr>),
      (''500-599'', \<lparr>range = ''500-599'', description = ''Panel Models'', models = []\<rparr>),
      (''600-699'', \<lparr>range = ''600-699'', description = ''Tracker Models'', models = []\<rparr>),
      (''700-799'', \<lparr>range = ''700-799'', description = ''DER Control Models'', models = []\<rparr>),
      (''800-899'', \<lparr>range = ''800-899'', description = ''Storage Models'', models = []\<rparr>),
      (''900+'', \<lparr>range = ''900+'', description = ''Extended & Custom Models'', models = []\<rparr>)]"

text \<open>The key chosen by the chain of comparisons in the \<^verbatim>\<open>forEach\<close> callback.\<close>

definition category_key :: "int \<Rightarrow> string" where
  "category_key i =
     (if i < 100 then ''1-99''
      else if i < 200 then ''100-199''
      else if i < 300 then ''200-299''
      else if i < 400 then ''300-399''
      else if i < 500 then ''400-499''
      else if i < 600 then ''500-599''
      else if i < 700 then ''600-699''
      else if i < 800 then ''700-799''
      else if i < 900 then ''800-899''
      else ''900+'')"

text \<open>\<^verbatim>\<open>categories[key].models.push(model)\<close>.\<close>

definition push_model :: "string \<Rightarrow> ModelInfo \<Rightarrow> (string \<times> Category) list \<Rightarrow> (string \<times> Category) list" where
  "push_model key m categories =
     map (\<lambda>(k, category). if k = key then (k, category\<lparr>models := models category @ [m]\<rparr>)
                            else (k, category)) categories"

definition categorizeModels :: "ModelInfo list \<Rightarrow> (string \<times> Category) list" where
  "categorizeModels ms =
     filter (\<lambda>(key, category). length (models category) > 0)
       (foldl (\<lambda>categories m. push_model (category_key (info_id m)) m categories)
          categories_init ms)"

subsection \<open>The application shell: \<^verbatim>\<open>handleModelSelect\<close>\<close>


definition invalid_format_message :: string where
  "invalid_format_message =
     ''Invalid SunSpec model format. Missing required '' @ [CHR 0x22] @ ''id'' @ [CHR 0x22]
       @ '' or '' @ [CHR 0x22] @ ''group'' @ [CHR 0x22] @ '' properties.''"

text \<open>
  \<^verbatim>\<open>err.message\<close>. The text of the \<^verbatim>\<open>TypeError\<close> is the engine's; the one of V8 is taken.
\<close>

fun message :: "js_error \<Rightarrow> string" where
  "message (Error msg) = msg"
| "message (TypeError prop) =
     ''Cannot read properties of null (reading '' @ [CHR 0x27] @ prop @ [CHR 0x27] @ '')''"

text \<open>
  The check \<^verbatim>\<open>!modelData.id || !modelData.group\<close>: an absent id and the id 0 are falsy, a
  group is an object and truthy; on \<^verbatim>\<open>null\<close> the read of \<^verbatim>\<open>id\<close> throws.
\<close>

fun validate :: "json_document \<Rightarrow> js_error + ModelDocument" where
  "validate Json_null = Inl (TypeError ''id'')"
| "validate (Json_record modelData) =
     (if (case doc_id modelData of None \<Rightarrow> True | Some n \<Rightarrow> n = 0)
         \<or> (case doc_group modelData of None \<Rightarrow> True | Some g \<Rightarrow> False)
      then Inl (Error invalid_format_message)
      else Inr modelData)"




subsection \<open>Notions the properties are stated with\<close>

text \<open>All nodes of a tree, in preorder.\<close>

fun nodes :: "TreeNode \<Rightarrow> TreeNode list" where
  "nodes (TreeNode i n l ty e cs d lv) = TreeNode i n l ty e cs d lv # concat (map nodes cs)"

text \<open>Everything a node holds apart from its children and its expanded flag.\<close>

definition core :: "TreeNode \<Rightarrow> string \<times> string \<times> string option \<times> node_type \<times> node_data \<times> int" where
  "core n = (node_id n, node_name n, node_label n, node_kind n, node_data n, level n)"

text \<open>
  Case-insensitive comparison in the words of the specification, stated without the
  lower-casing of the code: two code units are the same letter when they are equal or
  one is an upper-case letter and the other its lower-case form; a term occurs in a
  string when a contiguous block of the string has the letters of the term.
\<close>

definition is_upper :: "char \<Rightarrow> bool" where
  "is_upper c =
     (of_char c \<in> {65..90::nat} \<or> of_char c \<in> {192..214::nat} \<or> of_char c \<in> {216..222::nat})"

definition cased_pair :: "char \<Rightarrow> char \<Rightarrow> bool" where
  "cased_pair u l = (is_upper u \<and> (of_char l :: nat) = of_char u + 32)"

definition same_letter :: "char \<Rightarrow> char \<Rightarrow> bool" where
  "same_letter a b = (a = b \<or> cased_pair a b \<or> cased_pair b a)"

definition ci_substring :: "string \<Rightarrow> string \<Rightarrow> bool" where
  "ci_substring t s = (\<exists>pre u post. s = pre @ u @ post \<and> list_all2 same_letter u t)"

text \<open>
  The match of a node: the term occurs, in this sense, in the name, in the label when
  there is one, or, for a node of kind \<open>point\<close>, in the description of its point.
\<close>

definition selfMatches :: "string \<Rightarrow> TreeNode \<Rightarrow> bool" where
  "selfMatches t node =
     (ci_substring t (node_name node)
      \<or> (\<exists>l. node_label node = Some l \<and> ci_substring t l)
      \<or> (node_kind node = point
          \<and> (\<exists>p d. node_data node = PointData p \<and> point_desc p = Some d \<and> ci_substring t d)))"

text \<open>A node whose data fits its kind: a node of kind \<open>point\<close> carries a point.\<close>

definition data_fits :: "TreeNode \<Rightarrow> bool" where
  "data_fits node = (node_kind node = point \<longrightarrow> (\<exists>p. node_data node = PointData p))"

text \<open>
  The number a decimal numeral denotes, digit by position, and the numeral of a number:
  decimal digits only, at least one, and no leading zero but in \<open>0\<close> itself.
\<close>

definition decimal_digit :: "char \<Rightarrow> nat" where
  "decimal_digit c = length (takeWhile (\<lambda>d. d \<noteq> c) ''0123456789'')"

fun decimal_value :: "string \<Rightarrow> nat" where
  "decimal_value [] = 0"
| "decimal_value (c # cs) = decimal_digit c * 10 ^ length cs + decimal_value cs"

definition is_decimal_of :: "string \<Rightarrow> nat \<Rightarrow> bool" where
  "is_decimal_of ds n =
     (ds \<noteq> [] \<and> set ds \<subseteq> set ''0123456789'' \<and> (hd ds = CHR ''0'' \<longrightarrow> ds = ''0'')
      \<and> decimal_value ds = n)"

text \<open>The children whose filter result is a node, in their original order.\<close>

definition keptChildren :: "string \<Rightarrow> TreeNode \<Rightarrow> TreeNode list" where
  "keptChildren t node = List.map_filter (filteredTree t) (children node)"

text \<open>The elements of an optional array, none when the property is absent.\<close>

definition opt_list :: "'a list option \<Rightarrow> 'a list" where
  "opt_list xs = (case xs of Some l \<Rightarrow> l | None \<Rightarrow> [])"

text \<open>The node \<^verbatim>\<open>createTreeNode\<close> returns for a point and for a group at a given path id.\<close>

definition point_tree :: "string set \<Rightarrow> string \<Rightarrow> Point \<Rightarrow> int \<Rightarrow> TreeNode" where
  "point_tree e P p lv =
     createTreeNode e P (point_name p) (point_label p) point (PointData p) lv"

definition group_tree :: "string set \<Rightarrow> string \<Rightarrow> Group \<Rightarrow> int \<Rightarrow> TreeNode" where
  "group_tree e P g lv =
     createTreeNode e P (group_name g) (group_label g) group_node (GroupData g) lv"

text \<open>The ids of the \<open>i\<close>-th point and the \<open>i\<close>-th nested group of the group at path id \<open>P\<close>.\<close>

definition point_path :: "string \<Rightarrow> nat \<Rightarrow> string" where
  "point_path P i = P @ ''_point_'' @ string_of_nat i"

definition group_path :: "string \<Rightarrow> nat \<Rightarrow> string" where
  "group_path P i = P @ ''_group_'' @ string_of_nat i"

text \<open>
  The rule for the children of a group node \<open>n\<close> built from the group \<open>g\<close>: the points
  of \<open>g\<close> in order, then its nested groups in order, each with the id, name, label, kind,
  data and level the rule gives it.
\<close>

definition points_then_groups :: "TreeNode \<Rightarrow> Group \<Rightarrow> bool" where
  "points_then_groups n g =
     (map core (children n) =
        map (\<lambda>(i, p). (node_id n @ ''_point_'' @ string_of_nat i, point_name p, point_label p,
                       point, PointData p, level n + 1))
            (enumerate 0 (opt_list (points g)))
        @ map (\<lambda>(i, h). (node_id n @ ''_group_'' @ string_of_nat i, group_name h, group_label h,
                         group_node, GroupData h, level n + 1))
            (enumerate 0 (opt_list (groups g))))"

text \<open>An id that continues the path id \<open>P\<close>: \<open>P\<close> itself, or \<open>P\<close> and a part that starts with \<open>_\<close>.\<close>

definition extends_path :: "string \<Rightarrow> string \<Rightarrow> bool" where
  "extends_path P x = (\<exists>s. x = P @ s \<and> (s = [] \<or> hd s = CHR ''_''))"

text \<open>
  The points and groups reachable from a group: the group, its points, and what is
  reachable from its nested groups.
\<close>

fun entities :: "Group \<Rightarrow> node_data list" where
  "entities (Group n k c ps gs l d) =
     GroupData (Group n k c ps gs l d) # map PointData (opt_list ps)
       @ (case gs of None \<Rightarrow> [] | Some hs \<Rightarrow> concat (map entities hs))"

text \<open>A tree with every expanded flag cleared: its shape and all other fields.\<close>

fun erase :: "TreeNode \<Rightarrow> TreeNode" where
  "erase (TreeNode i n l ty e cs d lv) = TreeNode i n l ty False (map erase cs) d lv"

text \<open>
  The bucket table of the specification: the range keys in their fixed order, each with
  its lower bound (inclusive) and its upper bound (exclusive; none for the last).
\<close>

definition bucket_table :: "(string \<times> int \<times> int option) list" where
  "bucket_table =
     [(''1-99'', 0, Some 100), (''100-199'', 100, Some 200), (''200-299'', 200, Some 300),
      (''300-399'', 300, Some 400), (''400-499'', 400, Some 500), (''500-599'', 500, Some 600),
      (''600-699'', 600, Some 700), (''700-799'', 700, Some 800), (''800-899'', 800, Some 900),
      (''900+'', 900, None)]"

definition in_bounds :: "int \<Rightarrow> int \<Rightarrow> int option \<Rightarrow> bool" where
  "in_bounds i lo hi = (lo \<le> i \<and> (case hi of Some h \<Rightarrow> i < h | None \<Rightarrow> True))"

text \<open>
  An occurrence of \<^verbatim>\<open>model_<digits>.json\<close> in a file name: the digits \<open>ds\<close>, at least one,
  stand between \<^verbatim>\<open>model_\<close> and \<^verbatim>\<open>.json\<close>, and \<^verbatim>\<open>model_\<close> starts at position \<open>p\<close>.
\<close>

definition occurs_at :: "string \<Rightarrow> nat \<Rightarrow> string \<Rightarrow> bool" where
  "occurs_at s p ds =
     (\<exists>pre post. s = pre @ ''model_'' @ ds @ ''.json'' @ post \<and> length pre = p
        \<and> ds \<noteq> [] \<and> (\<forall>c \<in> set ds. is_digit c))"

text \<open>A file name with one trailing \<^verbatim>\<open>.json\<close> removed, as the specification words it.\<close>

definition strip_json_suffix :: "string \<Rightarrow> string" where
  "strip_json_suffix s = (if endsWith s ''.json'' then take (length s - 5) s else s)"

text \<open>The descriptors of the files whose fetch and extraction succeed, in listing order.\<close>

definition loaded :: "(string \<Rightarrow> json_document option) \<Rightarrow> GitHubFile list \<Rightarrow> ModelInfo list" where
  "loaded documents files = List.map_filter (load_file documents) files"

subsection \<open>A sample model\<close>

definition mk_point :: "string \<Rightarrow> string option \<Rightarrow> string option \<Rightarrow> Point" where
  "mk_point n l d =
     \<lparr>point_name = n, point_type = ''uint16'', point_size = 1, point_sf = None,
      point_units = None, point_access = Some R, point_mandatory = None, point_label = l,
      point_desc = d, point_symbols = None\<rparr>"

definition example_group :: Group where
  "example_group =
     Group ''Settings'' group None
       (Some [mk_point ''Voltage'' (Some ''Volt AC'') None, mk_point ''Current'' None None])
       (Some [Group ''Limits'' group None
                (Some [mk_point ''Max'' None (Some ''Upper voltage limit'')]) None None None,
              Group ''Empty'' sync None None (Some []) None None])
       None None"

definition example_model :: SunSpecModel where
  "example_model =
     \<lparr>model_id = 103, model_group = Some example_group, model_label = Some ''Meter'',
      model_desc = None\<rparr>"

definition example_tree :: TreeNode where
  "example_tree = buildTree example_model {''root''}"

text \<open>The node of the point \<open>Max\<close> of the sample, as built: a leaf, not expanded.\<close>

definition example_leaf :: TreeNode where
  "example_leaf =
     point_tree {''root''} ''root_group_group_0_point_0''
       (mk_point ''Max'' None (Some ''Upper voltage limit'')) 3"

definition mk_info :: "int \<Rightarrow> string \<Rightarrow> ModelInfo" where
  "mk_info i f =
     \<lparr>info_id = i, info_name = replace_first ''.json'' [] f, info_label = None,
      info_desc = None, filename = f\<rparr>"

definition example_infos :: "ModelInfo list" where
  "example_infos =
     [mk_info 0 ''a.json'', mk_info 99 ''b.json'', mk_info 100 ''c.json'',
      mk_info 5 ''d.json'', mk_info 899 ''e.json'', mk_info 900 ''f.json'']"

text \<open>Sample documents: one with only a labelled group, one with only an id.\<close>

definition meter_document :: ModelDocument where
  "meter_document =
     \<lparr>doc_id = None, doc_group = Some (Group [] group None None None (Some ''Meter'') None),
      doc_label = None, doc_desc = None\<rparr>"

definition id_document :: "int \<Rightarrow> ModelDocument" where
  "id_document n = \<lparr>doc_id = Some n, doc_group = None, doc_label = None, doc_desc = None\<rparr>"

text \<open>
  A sample listing of five files, and a network on which the request for
  \<^verbatim>\<open>broken.json\<close> fails and every other request returns the labelled group.
\<close>

definition mk_file :: "string \<Rightarrow> GitHubFile" where
  "mk_file n = \<lparr>file_name = n, file_path = ''json/'' @ n, download_url = []\<rparr>"

definition example_files :: "GitHubFile list" where
  "example_files =
     [mk_file ''model_50.json'', mk_file ''model_2.json'', mk_file ''broken.json'',
      mk_file ''copy_of_model_2.json'', mk_file ''model_10.json'']"

definition example_documents :: "string \<Rightarrow> json_document option" where
  "example_documents n = (if n = ''broken.json'' then None else Some (Json_record meter_document))"




section \<open>Decimal numerals\<close>

lemma digit_char_value: "d < 10 \<Longrightarrow> digit_value (digit_char d) = d"
  by (simp add: digit_value_def digit_char_def)

lemma digit_char_is_digit: "d < 10 \<Longrightarrow> is_digit (digit_char d)"
  by (simp add: is_digit_def digit_char_def)

lemma parseInt_snoc: "parseInt (ds @ [c]) = 10 * parseInt ds + digit_value c"
  by (simp add: parseInt_def)

lemma parseInt_string_of_nat: "parseInt (string_of_nat n) = n"
proof (induction n rule: string_of_nat.induct)
  case (1 n)
  show ?case
  proof (cases "n < 10")
    case True
    then show ?thesis
      by (subst string_of_nat.simps) (simp add: parseInt_def digit_char_value)
  next
    case False
    then have "parseInt (string_of_nat n) = 10 * parseInt (string_of_nat (n div 10)) + n mod 10"
      by (subst string_of_nat.simps) (simp add: parseInt_snoc digit_char_value)
    with False "1.IH" show ?thesis by simp
  qed
qed

lemma string_of_nat_inj: "string_of_nat a = string_of_nat b \<Longrightarrow> a = b"
  by (metis parseInt_string_of_nat)

lemma string_of_nat_digits: "c \<in> set (string_of_nat n) \<Longrightarrow> is_digit c"
proof (induction n rule: string_of_nat.induct)
  case (1 n)
  show ?case
  proof (cases "n < 10")
    case True
    with "1.prems" show ?thesis
      by (subst (asm) string_of_nat.simps) (simp add: digit_char_is_digit)
  next
    case False
    with "1.prems" have "c \<in> set (string_of_nat (n div 10)) \<or> c = digit_char (n mod 10)"
      by (subst (asm) string_of_nat.simps) auto
    with False "1.IH" show ?thesis by (auto simp: digit_char_is_digit)
  qed
qed

lemma underscore_not_digit: "\<not> is_digit (CHR ''_'')"
  by (simp add: is_digit_def)

lemma dot_not_digit: "\<not> is_digit (CHR ''.'')"
  by (simp add: is_digit_def)

lemma takeWhile_digits_path:
  assumes "s = [] \<or> hd s = CHR ''_''"
  shows "takeWhile is_digit (string_of_nat j @ s) = string_of_nat j"
proof -
  have "takeWhile is_digit s = []"
    using assms underscore_not_digit by (cases s) auto
  then show ?thesis
    by (simp add: takeWhile_append2 string_of_nat_digits)
qed

text \<open>The printer and the parser against the positional value of a numeral.\<close>

lemma digit_char_table:
  "digit_char 0 = CHR ''0''" "digit_char 1 = CHR ''1''" "digit_char 2 = CHR ''2''"
  "digit_char 3 = CHR ''3''" "digit_char 4 = CHR ''4''" "digit_char 5 = CHR ''5''"
  "digit_char 6 = CHR ''6''" "digit_char 7 = CHR ''7''" "digit_char 8 = CHR ''8''"
  "digit_char 9 = CHR ''9''" "digit_char (Suc 0) = CHR ''1''"
  by code_simp+

lemma less_ten_cases:
  "d < 10 \<Longrightarrow> d = 0 \<or> d = 1 \<or> d = 2 \<or> d = 3 \<or> d = 4 \<or> d = 5 \<or> d = 6 \<or> d = 7 \<or> d = 8 \<or> d = (9::nat)"
  by arith

lemma digit_char_in_table: "d < 10 \<Longrightarrow> digit_char d \<in> set ''0123456789''"
  by (drule less_ten_cases) (elim disjE; simp add: digit_char_table)

lemma decimal_digit_char: "d < 10 \<Longrightarrow> decimal_digit (digit_char d) = d"
  by (drule less_ten_cases) (elim disjE; simp add: digit_char_table decimal_digit_def)

lemma digit_char_of_digit: "is_digit c \<Longrightarrow> c = digit_char (of_char c - 48) \<and> of_char c - (48::nat) < 10"
  by (auto simp: is_digit_def digit_char_def)

lemma decimal_digit_value: "is_digit c \<Longrightarrow> decimal_digit c = digit_value c"
  using digit_char_of_digit [of c] decimal_digit_char [of "of_char c - 48"]
  by (simp add: digit_value_def)

lemma decimal_value_snoc: "decimal_value (ds @ [c]) = 10 * decimal_value ds + decimal_digit c"
  by (induction ds) (simp_all add: algebra_simps)

lemma parseInt_decimal_value: "\<forall>c \<in> set ds. is_digit c \<Longrightarrow> parseInt ds = decimal_value ds"
  by (induction ds rule: rev_induct)
     (simp_all add: parseInt_snoc decimal_value_snoc decimal_digit_value, simp add: parseInt_def)

lemma string_of_nat_nonempty: "string_of_nat n \<noteq> []"
  by (subst string_of_nat.simps) simp

lemma decimal_value_string_of_nat: "decimal_value (string_of_nat n) = n"
proof (induction n rule: string_of_nat.induct)
  case (1 n)
  show ?case
  proof (cases "n < 10")
    case True
    then show ?thesis
      by (subst string_of_nat.simps) (simp add: decimal_digit_char)
  next
    case False
    then have "decimal_value (string_of_nat n) = 10 * decimal_value (string_of_nat (n div 10)) + n mod 10"
      by (subst string_of_nat.simps) (simp add: decimal_value_snoc decimal_digit_char)
    with False "1.IH" show ?thesis by simp
  qed
qed

lemma string_of_nat_in_table: "set (string_of_nat n) \<subseteq> set ''0123456789''"
proof (induction n rule: string_of_nat.induct)
  case (1 n)
  show ?case
  proof (cases "n < 10")
    case True
    then have "string_of_nat n = [digit_char n]"
      by (subst string_of_nat.simps) simp
    with True digit_char_in_table [of n] show ?thesis by simp
  next
    case False
    then have "string_of_nat n = string_of_nat (n div 10) @ [digit_char (n mod 10)]"
      by (subst string_of_nat.simps) simp
    moreover have "digit_char (n mod 10) \<in> set ''0123456789''"
      by (rule digit_char_in_table) simp
    ultimately show ?thesis using False "1.IH" by simp
  qed
qed

lemma string_of_nat_leading: "hd (string_of_nat n) = CHR ''0'' \<Longrightarrow> n = 0"
proof (induction n rule: string_of_nat.induct)
  case (1 n)
  show ?case
  proof (cases "n < 10")
    case True
    then have s: "string_of_nat n = [digit_char n]"
      by (subst string_of_nat.simps) simp
    from True have "decimal_digit (digit_char n) = n" by (rule decimal_digit_char)
    moreover from "1.prems" s have "digit_char n = CHR ''0''" by simp
    ultimately show ?thesis by (simp add: decimal_digit_def)
  next
    case False
    then have "string_of_nat n = string_of_nat (n div 10) @ [digit_char (n mod 10)]"
      by (subst string_of_nat.simps) simp
    with "1.prems" have "hd (string_of_nat (n div 10)) = CHR ''0''"
      by (simp add: string_of_nat_nonempty)
    with False "1.IH" have "n div 10 = 0" by simp
    with False show ?thesis by simp
  qed
qed

lemma string_of_nat_zero: "string_of_nat 0 = ''0''"
  by (subst string_of_nat.simps) (simp add: digit_char_table)

lemma is_decimal_string_of_nat: "is_decimal_of (string_of_nat n) n"
proof -
  have "string_of_nat n = ''0''" if "hd (string_of_nat n) = CHR ''0''"
    using string_of_nat_leading [OF that] string_of_nat_zero by simp
  then show ?thesis
    unfolding is_decimal_of_def
    using string_of_nat_nonempty [of n] string_of_nat_in_table [of n]
      decimal_value_string_of_nat [of n]
    by (intro conjI impI)
qed

section \<open>Tree construction\<close>

lemma createTreeNode_sel:
  "node_id (createTreeNode e P n l ty d lv) = P"
  "node_name (createTreeNode e P n l ty d lv) = n"
  "node_label (createTreeNode e P n l ty d lv) = l"
  "node_kind (createTreeNode e P n l ty d lv) = ty"
  "isExpanded (createTreeNode e P n l ty d lv) = (P \<in> e)"
  "node_data (createTreeNode e P n l ty d lv) = d"
  "level (createTreeNode e P n l ty d lv) = lv"
  by (subst createTreeNode.simps, simp)+

lemma point_tree_eq:
  "point_tree e P p lv = TreeNode P (point_name p) (point_label p) point (P \<in> e) [] (PointData p) lv"
  by (simp add: createTreeNode.simps [of e P] point_tree_def)

lemma pushPoints_enumerate:
  "pushPoints e P lv k ps =
     map (\<lambda>(i, p). point_tree e (point_path P i) p (lv + 1)) (enumerate k ps)"
  by (induction ps arbitrary: k) (simp_all add: point_tree_def point_path_def)

lemma pushGroups_enumerate:
  "pushGroups e P lv k gs =
     map (\<lambda>(i, g). group_tree e (group_path P i) g (lv + 1)) (enumerate k gs)"
  by (induction gs arbitrary: k) (simp_all add: group_tree_def group_path_def)

lemma group_tree_eq:
  "group_tree e P g lv =
     TreeNode P (group_name g) (group_label g) group_node (P \<in> e)
       (map (\<lambda>(i, p). point_tree e (point_path P i) p (lv + 1))
            (enumerate 0 (opt_list (points g)))
        @ map (\<lambda>(i, g'). group_tree e (group_path P i) g' (lv + 1))
            (enumerate 0 (opt_list (groups g))))
       (GroupData g) lv"
  unfolding group_tree_def [of e P g lv]
  by (subst createTreeNode.simps)
     (simp add: opt_list_def pushPoints_enumerate pushGroups_enumerate split: option.splits)

lemma buildTree_eq:
  "buildTree m e =
     TreeNode ''root'' (''Model '' @ string_of_int (model_id m)) (model_label m) model
       (''root'' \<in> e)
       (case model_group m of None \<Rightarrow> [] | Some g \<Rightarrow> [group_tree e ''root_group'' g 1])
       (ModelData m) 0"
  unfolding buildTree_def
  by (subst createTreeNode.simps) (simp add: group_tree_def split: option.splits)

lemma group_tree_core:
  "core (group_tree e P g lv) = (P, group_name g, group_label g, group_node, GroupData g, lv)"
  by (simp add: core_def group_tree_def createTreeNode_sel)

lemma point_tree_core:
  "core (point_tree e P p lv) = (P, point_name p, point_label p, point, PointData p, lv)"
  by (simp add: core_def point_tree_def createTreeNode_sel)

lemma group_tree_children:
  "children (group_tree e P g lv) =
     map (\<lambda>(i, p). point_tree e (point_path P i) p (lv + 1))
         (enumerate 0 (opt_list (points g)))
     @ map (\<lambda>(i, g'). group_tree e (group_path P i) g' (lv + 1))
         (enumerate 0 (opt_list (groups g)))"
  by (subst group_tree_eq) simp

lemma group_tree_sel:
  "node_id (group_tree e P g lv) = P" "level (group_tree e P g lv) = lv"
  "node_kind (group_tree e P g lv) = group_node" "node_data (group_tree e P g lv) = GroupData g"
  "isExpanded (group_tree e P g lv) = (P \<in> e)"
  by (simp_all add: group_tree_def createTreeNode_sel)

lemma group_tree_points_then_groups: "points_then_groups (group_tree e P g lv) g"
  unfolding points_then_groups_def
  by (simp add: group_tree_children group_tree_sel group_tree_core point_tree_core
      split_def comp_def point_path_def group_path_def)

lemma nodes_eq: "nodes n = n # concat (map nodes (children n))"
  by (cases n) simp

lemma nodes_point_tree: "nodes (point_tree e P p lv) = [point_tree e P p lv]"
  by (simp add: point_tree_eq)

lemma nodes_group_tree:
  "nodes (group_tree e P g lv) =
     group_tree e P g lv
     # map (\<lambda>(i, p). point_tree e (point_path P i) p (lv + 1))
         (enumerate 0 (opt_list (points g)))
     @ concat (map (\<lambda>(i, g'). nodes (group_tree e (group_path P i) g' (lv + 1)))
         (enumerate 0 (opt_list (groups g))))"
proof -
  have "concat (map nodes (map (\<lambda>(i, p). point_tree e (point_path P i) p (lv + 1)) xs))
        = map (\<lambda>(i, p). point_tree e (point_path P i) p (lv + 1)) xs" for xs
    by (induction xs) (auto simp: nodes_point_tree)
  then show ?thesis
    by (simp add: nodes_eq [of "group_tree e P g lv"] group_tree_children comp_def split_def)
qed

lemma in_nodes_group_tree:
  assumes "n \<in> set (nodes (group_tree e P g lv))"
  shows "n = group_tree e P g lv
     \<or> (\<exists>i p. (i, p) \<in> set (enumerate 0 (opt_list (points g)))
            \<and> n = point_tree e (point_path P i) p (lv + 1))
     \<or> (\<exists>i h. (i, h) \<in> set (enumerate 0 (opt_list (groups g)))
            \<and> n \<in> set (nodes (group_tree e (group_path P i) h (lv + 1))))"
proof -
  from assms have "n \<in> set (group_tree e P g lv
     # map (\<lambda>(i, p). point_tree e (point_path P i) p (lv + 1))
         (enumerate 0 (opt_list (points g)))
     @ concat (map (\<lambda>(i, g'). nodes (group_tree e (group_path P i) g' (lv + 1)))
         (enumerate 0 (opt_list (groups g)))))"
    by (subst (asm) nodes_group_tree)
  then show ?thesis
    by (simp only: set_simps set_append set_map set_concat insert_iff Un_iff image_iff
        UN_iff split_def) force
qed

lemma in_set_enumerateD: "(i, x) \<in> set (enumerate k xs) \<Longrightarrow> x \<in> set xs"
  by (auto simp: in_set_enumerate_eq)

lemma group_in_opt_list: "h \<in> set (opt_list gs) \<Longrightarrow> \<exists>l. gs = Some l \<and> h \<in> set l"
  by (cases gs) (auto simp: opt_list_def)

lemma Group_induct_opt [case_names Group]:
  assumes step: "\<And>g. (\<And>h. h \<in> set (opt_list (groups g)) \<Longrightarrow> Q h) \<Longrightarrow> Q g"
  shows "Q g"
proof (induction g)
  case (Group nm k c ps gs l d)
  show ?case
  proof (rule step)
    fix h assume "h \<in> set (opt_list (groups (Group nm k c ps gs l d)))"
    then obtain hs where "gs = Some hs" "h \<in> set hs"
      by (cases gs) (simp_all add: opt_list_def)
    then show "Q h" using Group.IH [of hs h] by simp
  qed
qed

lemma group_nodes_ok:
  "n \<in> set (nodes (group_tree e P g lv)) \<Longrightarrow> node_kind n = group_node \<Longrightarrow>
     \<exists>h. node_data n = GroupData h \<and> points_then_groups n h"
proof (induction g arbitrary: P lv n rule: Group_induct_opt)
  case (Group g)
  from in_nodes_group_tree [OF Group.prems(1)] consider
      (root) "n = group_tree e P g lv"
    | (pt) i p where "(i, p) \<in> set (enumerate 0 (opt_list (points g)))"
        "n = point_tree e (point_path P i) p (lv + 1)"
    | (grp) i h where "(i, h) \<in> set (enumerate 0 (opt_list (groups g)))"
        "n \<in> set (nodes (group_tree e (group_path P i) h (lv + 1)))"
    by blast
  then show ?case
  proof cases
    case root
    have "node_data n = GroupData g"
      unfolding root by (rule group_tree_sel)
    moreover have "points_then_groups n g"
      unfolding root by (rule group_tree_points_then_groups)
    ultimately show ?thesis by blast
  next
    case pt
    have "node_kind n = point" unfolding pt(2) by (simp add: point_tree_eq)
    with Group.prems(2) show ?thesis by simp
  next
    case grp
    from grp(1) have "h \<in> set (opt_list (groups g))" by (rule in_set_enumerateD)
    then show ?thesis using grp(2) Group.prems(2) by (rule Group.IH)
  qed
qed

text \<open>
  C2. The root of a built tree has id \<open>root\<close>, the model's label and kind \<open>model\<close>;
  its name is \<open>Model\<close>, a space and the decimal numeral of the model's id, for an id
  from 0 up to \<open>2^53\<close>, where the number is exact and printed with all its digits.
  The children of the root are the one node built from the model's group at id
  \<open>root_group\<close> when the group is present, and none otherwise. Every group node of the
  tree, at path id \<open>P\<close>, has as children the points of its group in order, with ids
  \<open>P_point_i\<close>, followed by the nested groups in order, with ids \<open>P_group_i\<close>.
\<close>

theorem build_structure:
  "node_id (buildTree m e) = ''root''
   \<and> (0 \<le> model_id m \<and> model_id m < 2 ^ 53 \<longrightarrow>
        (\<exists>ds. node_name (buildTree m e) = ''Model '' @ ds
           \<and> is_decimal_of ds (nat (model_id m))))
   \<and> node_label (buildTree m e) = model_label m
   \<and> node_kind (buildTree m e) = model
   \<and> children (buildTree m e) =
       (case model_group m of None \<Rightarrow> [] | Some g \<Rightarrow> [group_tree e ''root_group'' g 1])
   \<and> (\<forall>g. model_group m = Some g \<longrightarrow>
          map core (children (buildTree m e)) =
            [(''root_group'', group_name g, group_label g, group_node, GroupData g, 1)])
   \<and> (\<forall>n \<in> set (nodes (buildTree m e)). node_kind n = group_node \<longrightarrow>
          (\<exists>g. node_data n = GroupData g \<and> points_then_groups n g))"
proof -
  have groups_ok: "\<exists>g. node_data n = GroupData g \<and> points_then_groups n g"
    if n: "n \<in> set (nodes (buildTree m e))" and k: "node_kind n = group_node" for n
  proof (cases "model_group m")
    case None
    with n have "n = buildTree m e" by (simp add: buildTree_eq)
    then have "node_kind n = model" by (simp add: buildTree_eq)
    with k show ?thesis by simp
  next
    case (Some g)
    with n have "n = buildTree m e \<or> n \<in> set (nodes (group_tree e ''root_group'' g 1))"
      by (simp add: buildTree_eq)
    then show ?thesis
    proof
      assume "n = buildTree m e"
      then have "node_kind n = model" by (simp add: buildTree_eq)
      with k show ?thesis by simp
    next
      assume "n \<in> set (nodes (group_tree e ''root_group'' g 1))"
      then show ?thesis using k by (rule group_nodes_ok)
    qed
  qed
  have root: "node_id (buildTree m e) = ''root''"
      "node_name (buildTree m e) = ''Model '' @ string_of_int (model_id m)"
      "node_label (buildTree m e) = model_label m"
      "node_kind (buildTree m e) = model"
      "children (buildTree m e) =
         (case model_group m of None \<Rightarrow> [] | Some g \<Rightarrow> [group_tree e ''root_group'' g 1])"
    by (simp_all add: buildTree_eq)
  have child: "map core (children (buildTree m e)) =
            [(''root_group'', group_name g, group_label g, group_node, GroupData g, 1)]"
    if "model_group m = Some g" for g
    using that by (simp add: root(5) group_tree_core)
  have name: "\<exists>ds. node_name (buildTree m e) = ''Model '' @ ds
           \<and> is_decimal_of ds (nat (model_id m))"
    if "0 \<le> model_id m" "model_id m < 2 ^ 53"
  proof -
    from that(1) have "node_name (buildTree m e) = ''Model '' @ string_of_nat (nat (model_id m))"
      by (simp add: root(2) string_of_int_def)
    with is_decimal_string_of_nat [of "nat (model_id m)"] show ?thesis
      by blast
  qed
  from root(1,3,4,5) child groups_ok name show ?thesis
    by (intro conjI allI impI ballI) blast+
qed

theorem build_structure_witness:
  "(0::int) \<le> model_id example_model \<and> model_id example_model < 2 ^ 53
   \<and> node_name example_tree = ''Model 103''
   \<and> is_decimal_of ''103'' (nat (model_id example_model))
   \<and> hd (children example_tree) \<in> set (nodes example_tree)
   \<and> node_kind (hd (children example_tree)) = group_node
   \<and> points_then_groups (hd (children example_tree)) example_group
   \<and> map node_id (children (hd (children example_tree))) =
       [''root_group_point_0'', ''root_group_point_1'', ''root_group_group_0'',
        ''root_group_group_1'']"
proof -
  let ?n = "hd (children example_tree)"
  have a: "?n \<in> set (nodes (buildTree example_model {''root''}))"
    by code_simp
  have b: "node_kind ?n = group_node"
    by code_simp
  have c: "node_data ?n = GroupData example_group"
    by code_simp
  have d: "map node_id (children ?n) =
       [''root_group_point_0'', ''root_group_point_1'', ''root_group_group_0'',
        ''root_group_group_1'']"
    by code_simp
  have "\<forall>n \<in> set (nodes (buildTree example_model {''root''})). node_kind n = group_node \<longrightarrow>
          (\<exists>g. node_data n = GroupData g \<and> points_then_groups n g)"
    by (rule build_structure [of example_model "{''root''}", THEN conjunct2, THEN conjunct2,
          THEN conjunct2, THEN conjunct2, THEN conjunct2, THEN conjunct2])
  with a b obtain g where "node_data ?n = GroupData g" "points_then_groups ?n g"
    by blast
  with c have p: "points_then_groups ?n example_group"
    by simp
  have i: "(0::int) \<le> model_id example_model" "model_id example_model < 2 ^ 53"
    by (simp_all add: example_model_def)
  have nm: "node_name example_tree = ''Model 103''"
    by code_simp
  from build_structure [of example_model "{''root''}", THEN conjunct2, THEN conjunct1] i
  obtain ds where "node_name (buildTree example_model {''root''}) = ''Model '' @ ds"
      "is_decimal_of ds (nat (model_id example_model))"
    by blast
  with nm have dec: "is_decimal_of ''103'' (nat (model_id example_model))"
    by (simp add: example_tree_def)
  from i nm dec a b p d show ?thesis
    by (simp add: example_tree_def)
qed

lemma erase_point_tree: "erase (point_tree s1 P p lv) = erase (point_tree s2 P p lv)"
  by (simp add: point_tree_eq)

lemma erase_group_tree: "erase (group_tree s1 P g lv) = erase (group_tree s2 P g lv)"
proof (induction g arbitrary: P lv rule: Group_induct_opt)
  case (Group g)
  have "map (\<lambda>x. erase (group_tree s1 (group_path P (fst x)) (snd x) (lv + 1)))
          (enumerate 0 (opt_list (groups g)))
      = map (\<lambda>x. erase (group_tree s2 (group_path P (fst x)) (snd x) (lv + 1)))
          (enumerate 0 (opt_list (groups g)))"
  proof (rule map_cong [OF refl])
    fix x assume "x \<in> set (enumerate 0 (opt_list (groups g)))"
    then have "(fst x, snd x) \<in> set (enumerate 0 (opt_list (groups g)))"
      by simp
    then have "snd x \<in> set (opt_list (groups g))"
      by (rule in_set_enumerateD)
    then show "erase (group_tree s1 (group_path P (fst x)) (snd x) (lv + 1))
        = erase (group_tree s2 (group_path P (fst x)) (snd x) (lv + 1))"
      by (rule Group.IH)
  qed
  then show ?case
    by (subst group_tree_eq, subst (2) group_tree_eq)
       (simp add: comp_def split_def erase_point_tree [of s1 _ _ _ s2])
qed

lemma core_nodes_erase: "map core (nodes (erase t)) = map core (nodes t)"
proof (induction t)
  case (TreeNode i n l ty e cs d lv)
  have "concat (map (\<lambda>c. map core (nodes (erase c))) cs) = concat (map (\<lambda>c. map core (nodes c)) cs)"
    using TreeNode.IH by (induction cs) auto
  moreover have "core (TreeNode i n l ty False (map erase cs) d lv) = core (TreeNode i n l ty e cs d lv)"
    by (simp add: core_def)
  ultimately show ?case
    by (simp add: map_concat comp_def)
qed

lemma expanded_group_tree:
  "n \<in> set (nodes (group_tree s P g lv)) \<Longrightarrow> isExpanded n = (node_id n \<in> s)"
proof (induction g arbitrary: P lv n rule: Group_induct_opt)
  case (Group g)
  from in_nodes_group_tree [OF Group.prems(1)] consider
      (root) "n = group_tree s P g lv"
    | (pt) i p where "n = point_tree s (point_path P i) p (lv + 1)"
    | (grp) i h where "(i, h) \<in> set (enumerate 0 (opt_list (groups g)))"
        "n \<in> set (nodes (group_tree s (group_path P i) h (lv + 1)))"
    by blast
  then show ?case
  proof cases
    case root
    show ?thesis unfolding root by (simp add: group_tree_sel)
  next
    case pt
    show ?thesis unfolding pt by (simp add: point_tree_eq)
  next
    case grp
    from grp(1) have "h \<in> set (opt_list (groups g))" by (rule in_set_enumerateD)
    then show ?thesis using grp(2) by (rule Group.IH)
  qed
qed

text \<open>
  C4. Two trees built from one model with two expansion states are equal once the
  expanded flags are cleared: same shape and, node by node, same id, name, label, kind,
  data and level. In a built tree the expanded flag of every node is the membership of
  its id in the expansion state.
\<close>

theorem build_expansion_independent:
  "erase (buildTree m s1) = erase (buildTree m s2)
   \<and> map core (nodes (buildTree m s1)) = map core (nodes (buildTree m s2))
   \<and> (\<forall>n \<in> set (nodes (buildTree m s)). isExpanded n = (node_id n \<in> s))"
proof -
  have er: "erase (buildTree m s1) = erase (buildTree m s2)"
    by (cases "model_group m") (simp_all add: buildTree_eq erase_group_tree [of s1 _ _ _ s2])
  have "map core (nodes (erase (buildTree m s1))) = map core (nodes (erase (buildTree m s2)))"
    by (simp only: er)
  then have co: "map core (nodes (buildTree m s1)) = map core (nodes (buildTree m s2))"
    by (simp only: core_nodes_erase)
  have ex: "isExpanded n = (node_id n \<in> s)" if n: "n \<in> set (nodes (buildTree m s))" for n
  proof -
    from n have "n = buildTree m s
        \<or> (\<exists>g. model_group m = Some g \<and> n \<in> set (nodes (group_tree s ''root_group'' g 1)))"
      by (cases "model_group m") (simp_all add: buildTree_eq)
    then show ?thesis
    proof
      assume r: "n = buildTree m s"
      show ?thesis unfolding r by (simp add: buildTree_eq)
    next
      assume "\<exists>g. model_group m = Some g \<and> n \<in> set (nodes (group_tree s ''root_group'' g 1))"
      then show ?thesis using expanded_group_tree by blast
    qed
  qed
  from er co ex show ?thesis by blast
qed


theorem build_expansion_independent_witness:
  "hd (children (buildTree example_model {''root_group''}))
     \<in> set (nodes (buildTree example_model {''root_group''}))
   \<and> node_id (hd (children (buildTree example_model {''root_group''}))) = ''root_group''
   \<and> isExpanded (hd (children (buildTree example_model {''root_group''})))
   \<and> erase (buildTree example_model {''root''}) = erase (buildTree example_model {''root_group''})"
proof -
  let ?t = "buildTree example_model {''root_group''}"
  have a: "hd (children ?t) \<in> set (nodes ?t)"
    by code_simp
  have b: "node_id (hd (children ?t)) = ''root_group''"
    by code_simp
  note th = build_expansion_independent
      [of example_model "{''root''}" "{''root_group''}" "{''root_group''}"]
  have e: "erase (buildTree example_model {''root''}) = erase ?t"
    by (rule th [THEN conjunct1])
  have "\<forall>n \<in> set (nodes ?t). isExpanded n = (node_id n \<in> {''root_group''})"
    by (rule th [THEN conjunct2, THEN conjunct2])
  with a have "isExpanded (hd (children ?t)) = (node_id (hd (children ?t)) \<in> {''root_group''})"
    by blast
  with a b e show ?thesis
    by simp
qed

lemma entities_eq:
  "entities g = GroupData g # map PointData (opt_list (points g))
       @ concat (map entities (opt_list (groups g)))"
  by (cases g) (simp add: opt_list_def split: option.splits)

lemma data_point_tree: "node_data (point_tree e P p lv) = PointData p"
  by (simp add: point_tree_eq)

lemma concat_map_enumerate:
  assumes "\<And>i x. x \<in> set xs \<Longrightarrow> f i x = g x"
  shows "concat (map (\<lambda>(i, x). f i x) (enumerate k xs)) = concat (map g xs)"
  using assms by (induction xs arbitrary: k) auto

lemma data_group_tree: "map node_data (nodes (group_tree e P g lv)) = entities g"
proof (induction g arbitrary: P lv rule: Group_induct_opt)
  case (Group g)
  have pts: "map (\<lambda>x. node_data (point_tree e (point_path P (fst x)) (snd x) (lv + 1)))
                (enumerate k ps) = map PointData ps" for k ps
    by (induction ps arbitrary: k) (simp_all add: data_point_tree)
  have grs: "concat (map (\<lambda>(i, h). map node_data (nodes (group_tree e (group_path P i) h (lv + 1))))
                (enumerate 0 (opt_list (groups g)))) = concat (map entities (opt_list (groups g)))"
    by (rule concat_map_enumerate) (rule Group.IH)
  show ?case
    by (subst nodes_group_tree, subst entities_eq)
       (simp add: pts group_tree_sel map_concat comp_def split_def grs [unfolded split_def])
qed

lemma extends_path_self: "extends_path P P"
  by (simp add: extends_path_def)

lemma extends_path_group: "extends_path (group_path P i) x \<Longrightarrow> extends_path P x"
  by (auto simp: extends_path_def group_path_def)

lemma extends_path_point: "extends_path P (point_path P i)"
  by (simp add: extends_path_def point_path_def)

lemma ids_extend:
  "n \<in> set (nodes (group_tree e P g lv)) \<Longrightarrow> extends_path P (node_id n)"
proof (induction g arbitrary: P lv n rule: Group_induct_opt)
  case (Group g)
  from in_nodes_group_tree [OF Group.prems(1)] consider
      (root) "n = group_tree e P g lv"
    | (pt) i p where "n = point_tree e (point_path P i) p (lv + 1)"
    | (grp) i h where "(i, h) \<in> set (enumerate 0 (opt_list (groups g)))"
        "n \<in> set (nodes (group_tree e (group_path P i) h (lv + 1)))"
    by blast
  then show ?case
  proof cases
    case root
    show ?thesis unfolding root by (simp add: group_tree_sel extends_path_self)
  next
    case pt
    show ?thesis unfolding pt by (simp add: point_tree_eq extends_path_point)
  next
    case grp
    from grp(1) have "h \<in> set (opt_list (groups g))" by (rule in_set_enumerateD)
    then have "extends_path (group_path P i) (node_id n)" using grp(2) by (rule Group.IH)
    then show ?thesis by (rule extends_path_group)
  qed
qed

text \<open>The index of the nested group an id lies under can be read off the id.\<close>

lemma group_index_of_id:
  assumes "extends_path (group_path P j) x"
  shows "takeWhile is_digit (drop (length P + 7) x) = string_of_nat j"
proof -
  from assms obtain s where x: "x = group_path P j @ s" and s: "s = [] \<or> hd s = CHR ''_''"
    by (auto simp: extends_path_def)
  have "drop (length P + 7) x = string_of_nat j @ s"
    by (simp add: x group_path_def)
  with s show ?thesis by (simp add: takeWhile_digits_path)
qed

lemma distinct_concat_tagged:
  assumes "\<And>x. x \<in> set xs \<Longrightarrow> distinct (f x)"
    and "\<And>x y. x \<in> set xs \<Longrightarrow> y \<in> set (f x) \<Longrightarrow> tag y = key x"
    and "distinct (map key xs)"
  shows "distinct (concat (map f xs))"
  using assms
proof (induction xs)
  case Nil
  then show ?case by simp
next
  case (Cons a xs)
  have "set (f a) \<inter> set (concat (map f xs)) = {}"
  proof (rule ccontr)
    assume "set (f a) \<inter> set (concat (map f xs)) \<noteq> {}"
    then obtain y b where y: "y \<in> set (f a)" "b \<in> set xs" "y \<in> set (f b)" by auto
    then have "key a = key b" using Cons.prems(2) [of a y] Cons.prems(2) [of b y] by simp
    with y(2) Cons.prems(3) show False by auto
  qed
  moreover have "distinct (concat (map f xs))"
    using Cons by simp
  ultimately show ?case using Cons.prems(1) by simp
qed

lemma distinct_indices: "distinct (map (\<lambda>x. string_of_nat (fst x)) (enumerate k xs))"
proof -
  have "map (\<lambda>x. string_of_nat (fst x)) (enumerate k xs) = map string_of_nat [k..<k + length xs]"
    by (simp add: map_fst_enumerate [symmetric] comp_def del: map_fst_enumerate)
  moreover have "distinct (map string_of_nat [k..<k + length xs])"
    by (simp add: distinct_map inj_on_def string_of_nat_inj)
  ultimately show ?thesis by simp
qed

lemma distinct_point_ids:
  "distinct (map (\<lambda>x. point_path P (fst x)) (enumerate k ps))"
proof -
  have "map (\<lambda>x. point_path P (fst x)) (enumerate k ps) = map (point_path P) [k..<k + length ps]"
    by (simp add: map_fst_enumerate [symmetric] comp_def del: map_fst_enumerate)
  moreover have "distinct (map (point_path P) [k..<k + length ps])"
    by (auto simp: distinct_map inj_on_def point_path_def dest: string_of_nat_inj)
  ultimately show ?thesis by simp
qed

lemma distinct_group_tree: "distinct (map node_id (nodes (group_tree e P g lv)))"
proof (induction g arbitrary: P lv rule: Group_induct_opt)
  case (Group g)
  let ?ps = "enumerate 0 (opt_list (points g))"
  let ?gs = "enumerate 0 (opt_list (groups g))"
  let ?sub = "\<lambda>x. map node_id (nodes (group_tree e (group_path P (fst x)) (snd x) (lv + 1)))"
  have ids: "map node_id (nodes (group_tree e P g lv)) =
      P # map (\<lambda>x. point_path P (fst x)) ?ps @ concat (map ?sub ?gs)"
    by (subst nodes_group_tree)
       (simp add: group_tree_sel point_tree_eq map_concat comp_def split_def)
  have sub_ext: "extends_path (group_path P (fst x)) y" if "y \<in> set (?sub x)" for x y
    using that ids_extend by auto
  have d_sub: "distinct (concat (map ?sub ?gs))"
  proof (rule distinct_concat_tagged [where key = "\<lambda>x. string_of_nat (fst x)"
        and tag = "\<lambda>y. takeWhile is_digit (drop (length P + 7) y)"])
    fix x assume "x \<in> set ?gs"
    then have "(fst x, snd x) \<in> set ?gs" by simp
    then have "snd x \<in> set (opt_list (groups g))" by (rule in_set_enumerateD)
    then show "distinct (?sub x)" by (rule Group.IH)
  next
    fix x y assume "x \<in> set ?gs" "y \<in> set (?sub x)"
    then show "takeWhile is_digit (drop (length P + 7) y) = string_of_nat (fst x)"
      using sub_ext group_index_of_id by blast
  next
    show "distinct (map (\<lambda>x. string_of_nat (fst x)) ?gs)" by (rule distinct_indices)
  qed
  have root_pt: "P \<notin> set (map (\<lambda>x. point_path P (fst x)) ?ps)"
    by (auto simp: point_path_def)
  have root_sub: "P \<notin> set (concat (map ?sub ?gs))"
  proof
    assume "P \<in> set (concat (map ?sub ?gs))"
    then obtain x where "P \<in> set (?sub x)" by auto
    then have "extends_path (group_path P (fst x)) P" by (rule sub_ext)
    then show False by (auto simp: extends_path_def group_path_def)
  qed
  have pt_sub: "set (map (\<lambda>x. point_path P (fst x)) ?ps) \<inter> set (concat (map ?sub ?gs)) = {}"
  proof (rule ccontr)
    assume "set (map (\<lambda>x. point_path P (fst x)) ?ps) \<inter> set (concat (map ?sub ?gs)) \<noteq> {}"
    then obtain i x where "point_path P i \<in> set (?sub x)" by auto
    then have "extends_path (group_path P (fst x)) (point_path P i)" by (rule sub_ext)
    then show False by (auto simp: extends_path_def group_path_def point_path_def)
  qed
  show ?case
    unfolding ids using d_sub root_pt root_sub pt_sub distinct_point_ids [of P 0]
    by (simp only: distinct.simps distinct_append set_append Un_iff) blast
qed

text \<open>
  C3. The nodes of a built tree below the root are, in preorder, the points and groups
  reachable from the model's group, one node for each and no other node; and the ids of
  all nodes of the tree are pairwise distinct.
\<close>

theorem build_one_node_per_entity:
  "map node_data (nodes (buildTree m e)) =
      ModelData m # (case model_group m of None \<Rightarrow> [] | Some g \<Rightarrow> entities g)
   \<and> distinct (map node_id (nodes (buildTree m e)))"
proof (cases "model_group m")
  case None
  then show ?thesis by (simp add: buildTree_eq)
next
  case (Some g)
  have "''root'' \<notin> set (map node_id (nodes (group_tree e ''root_group'' g 1)))"
  proof
    assume "''root'' \<in> set (map node_id (nodes (group_tree e ''root_group'' g 1)))"
    then have "extends_path ''root_group'' ''root''" using ids_extend by auto
    then show False by (simp add: extends_path_def)
  qed
  then show ?thesis
    using Some data_group_tree [of e "''root_group''" g 1]
      distinct_group_tree [of e "''root_group''" g 1]
    by (simp add: buildTree_eq)
qed

section \<open>Tree search\<close>

lemma str_includes_sublist: "str_includes s t = sublist t s"
  by (induction s) (auto simp: sublist_Cons_right)

lemma of_char_lower_char:
  "(of_char (lower_char c) :: nat) = (if is_upper c then of_char c + 32 else of_char c)"
proof -
  have "(of_char c :: nat) < 256" by simp
  then show ?thesis
    by (auto simp: lower_char_def is_upper_def)
qed

lemma lower_char_eq_iff: "(lower_char a = lower_char b) = same_letter a b"
proof -
  have "(lower_char a = lower_char b) = ((of_char (lower_char a) :: nat) = of_char (lower_char b))"
    by simp
  also have "\<dots> = same_letter a b"
  proof -
    have e: "(a = b) = ((of_char a :: nat) = of_char b)" by simp
    show ?thesis
      unfolding of_char_lower_char same_letter_def cased_pair_def e
      by (auto simp: is_upper_def)
  qed
  finally show ?thesis .
qed

lemma map_lower_eq_iff: "(map lower_char u = map lower_char t) = list_all2 same_letter u t"
proof -
  have "(map lower_char u = map lower_char t) = list_all2 (=) (map lower_char u) (map lower_char t)"
    by (simp add: list.rel_eq)
  also have "\<dots> = list_all2 (\<lambda>x y. lower_char x = lower_char y) u t"
    by (simp add: list.rel_map)
  finally show ?thesis by (simp add: lower_char_eq_iff)
qed

lemma map_eq_appendD:
  "map f xs = ys @ zs \<Longrightarrow> \<exists>us vs. xs = us @ vs \<and> map f us = ys \<and> map f vs = zs"
  by (auto simp: map_eq_append_conv)

lemma sublist_lower_iff: "sublist (toLowerCase t) (toLowerCase s) = ci_substring t s"
proof
  assume "sublist (toLowerCase t) (toLowerCase s)"
  then obtain ps ss where "map lower_char s = ps @ map lower_char t @ ss"
    by (auto simp: sublist_def toLowerCase_def)
  then obtain pre r where r: "s = pre @ r" "map lower_char r = map lower_char t @ ss"
    using map_eq_appendD by blast
  from r(2) obtain u post where "r = u @ post" "map lower_char u = map lower_char t"
    using map_eq_appendD by blast
  with r(1) show "ci_substring t s"
    unfolding ci_substring_def map_lower_eq_iff [symmetric] by blast
next
  assume "ci_substring t s"
  then obtain pre u post where "s = pre @ u @ post" "map lower_char u = map lower_char t"
    unfolding ci_substring_def map_lower_eq_iff [symmetric] by blast
  then have "toLowerCase s = map lower_char pre @ toLowerCase t @ map lower_char post"
    by (simp add: toLowerCase_def)
  then show "sublist (toLowerCase t) (toLowerCase s)"
    unfolding sublist_def by blast
qed

lemma matchesSearch_selfMatches: "data_fits node \<Longrightarrow> matchesSearch t node = selfMatches t node"
  unfolding matchesSearch_def selfMatches_def str_includes_sublist sublist_lower_iff data_fits_def
  by (cases "node_data node") (auto split: option.splits)

text \<open>Every node of a built tree has data that fits its kind.\<close>

lemma group_tree_nodes_fit: "n \<in> set (nodes (group_tree e P g lv)) \<Longrightarrow> data_fits n"
proof (induction g arbitrary: P lv n rule: Group_induct_opt)
  case (Group g)
  from in_nodes_group_tree [OF Group.prems(1)] consider
      (root) "n = group_tree e P g lv"
    | (pt) i p where "n = point_tree e (point_path P i) p (lv + 1)"
    | (grp) i h where "(i, h) \<in> set (enumerate 0 (opt_list (groups g)))"
        "n \<in> set (nodes (group_tree e (group_path P i) h (lv + 1)))"
    by blast
  then show ?case
  proof cases
    case root
    show ?thesis unfolding root by (simp add: data_fits_def group_tree_sel)
  next
    case pt
    show ?thesis unfolding pt by (simp add: data_fits_def point_tree_eq)
  next
    case grp
    from grp(1) have "h \<in> set (opt_list (groups g))" by (rule in_set_enumerateD)
    then show ?thesis using grp(2) by (rule Group.IH)
  qed
qed

lemma built_nodes_fit: "n \<in> set (nodes (buildTree m e)) \<Longrightarrow> data_fits n"
proof -
  assume n: "n \<in> set (nodes (buildTree m e))"
  then have "n = buildTree m e
      \<or> (\<exists>g. model_group m = Some g \<and> n \<in> set (nodes (group_tree e ''root_group'' g 1)))"
    by (cases "model_group m") (simp_all add: buildTree_eq)
  then show ?thesis
  proof
    assume r: "n = buildTree m e"
    show ?thesis unfolding r by (simp add: data_fits_def buildTree_eq)
  next
    assume "\<exists>g. model_group m = Some g \<and> n \<in> set (nodes (group_tree e ''root_group'' g 1))"
    then show ?thesis using group_tree_nodes_fit by blast
  qed
qed

lemma map_the_filter: "map the (filter (\<lambda>r. r \<noteq> None) (map f xs)) = List.map_filter f xs"
  by (induction xs) (auto simp: List.map_filter_simps split: option.splits)

lemma filterNode_eq:
  "filterNode t node =
     (if matchesSearch t node \<or> List.map_filter (filterNode t) (children node) \<noteq> []
      then Some (TreeNode (node_id node) (node_name node) (node_label node) (node_kind node) True
                  (List.map_filter (filterNode t) (children node)) (node_data node) (level node))
      else None)"
  by (cases node) (simp only: filterNode.simps map_the_filter TreeNode.sel length_greater_0_conv)

text \<open>
  C1, as the code has it. With an empty term the filter returns the node itself. With a
  non-empty term, for a node whose data fits its kind (as in every built tree), the result
  is absent exactly when the node does not match and no child survives, the match being
  the case-insensitive occurrence of the term in the name, in the label when present, or,
  for a node of kind \<open>point\<close>, in the description of its point. Otherwise the result is
  the node with its children replaced by the surviving children, in their order, and
  its expanded flag set: on every retained node, also on one that keeps no child.
\<close>

theorem filter_characterisation:
  "filteredTree [] node = Some node
   \<and> (t \<noteq> [] \<and> data_fits node \<longrightarrow>
        ((filteredTree t node = None) = (\<not> selfMatches t node \<and> keptChildren t node = []))
        \<and> (selfMatches t node \<or> keptChildren t node \<noteq> [] \<longrightarrow>
             filteredTree t node =
               Some (TreeNode (node_id node) (node_name node) (node_label node) (node_kind node)
                       True (keptChildren t node) (node_data node) (level node))))"
proof -
  have k: "t \<noteq> [] \<Longrightarrow> keptChildren t node = List.map_filter (filterNode t) (children node)"
    unfolding keptChildren_def filteredTree_def by presburger
  have e: "filteredTree [] node = Some node"
    by (simp add: filteredTree_def)
  have m: "((filteredTree t node = None) = (\<not> selfMatches t node \<and> keptChildren t node = []))
        \<and> (selfMatches t node \<or> keptChildren t node \<noteq> [] \<longrightarrow>
             filteredTree t node =
               Some (TreeNode (node_id node) (node_name node) (node_label node) (node_kind node)
                       True (keptChildren t node) (node_data node) (level node)))"
    if "t \<noteq> []" "data_fits node"
    using that k
    by (simp add: filteredTree_def filterNode_eq [of t node] matchesSearch_selfMatches)
  from e m show ?thesis by blast
qed

lemma example_root:
  "node_id example_tree = ''root'' \<and> node_name example_tree = ''Model 103''
   \<and> node_label example_tree = Some ''Meter'' \<and> node_kind example_tree = model
   \<and> node_data example_tree = ModelData example_model \<and> level example_tree = 0"
  by code_simp

lemma example_leaf_eq:
  "example_leaf =
     TreeNode ''root_group_group_0_point_0'' ''Max'' None point False []
       (PointData (mk_point ''Max'' None (Some ''Upper voltage limit''))) 3"
  by (simp add: example_leaf_def point_tree_eq mk_point_def)

lemma example_leaf_matches: "data_fits example_leaf \<and> selfMatches ''LIMIT'' example_leaf"
proof -
  have d: "data_fits example_leaf"
    by (simp add: data_fits_def example_leaf_eq)
  have "matchesSearch ''LIMIT'' example_leaf"
    by code_simp
  with d show ?thesis
    by (simp add: matchesSearch_selfMatches)
qed

theorem filter_characterisation_witness:
  "''LIMIT'' \<noteq> [] \<and> data_fits example_leaf \<and> selfMatches ''LIMIT'' example_leaf
   \<and> filteredTree ''LIMIT'' example_leaf =
       Some (TreeNode ''root_group_group_0_point_0'' ''Max'' None point True []
               (PointData (mk_point ''Max'' None (Some ''Upper voltage limit''))) 3)
   \<and> ''VOLT'' \<noteq> [] \<and> data_fits example_tree \<and> keptChildren ''VOLT'' example_tree \<noteq> []
   \<and> filteredTree ''VOLT'' example_tree =
       Some (TreeNode ''root'' ''Model 103'' (Some ''Meter'') model True
               (keptChildren ''VOLT'' example_tree) (ModelData example_model) 0)
   \<and> map node_id (keptChildren ''VOLT'' example_tree) = [''root_group'']"
proof -
  have kl: "keptChildren ''LIMIT'' example_leaf = []"
    by (simp add: keptChildren_def example_leaf_eq List.map_filter_simps)
  have "filteredTree ''LIMIT'' example_leaf =
      Some (TreeNode (node_id example_leaf) (node_name example_leaf) (node_label example_leaf)
              (node_kind example_leaf) True (keptChildren ''LIMIT'' example_leaf)
              (node_data example_leaf) (level example_leaf))"
    using filter_characterisation [of example_leaf "''LIMIT''"] example_leaf_matches by simp
  then have l: "filteredTree ''LIMIT'' example_leaf =
       Some (TreeNode ''root_group_group_0_point_0'' ''Max'' None point True []
               (PointData (mk_point ''Max'' None (Some ''Upper voltage limit''))) 3)"
    unfolding kl by (simp add: example_leaf_eq)
  have dr: "data_fits example_tree"
    using example_root by (simp add: data_fits_def)
  have k: "map node_id (keptChildren ''VOLT'' example_tree) = [''root_group'']"
    by code_simp
  then have kn: "keptChildren ''VOLT'' example_tree \<noteq> []"
    by auto
  have "filteredTree ''VOLT'' example_tree =
      Some (TreeNode (node_id example_tree) (node_name example_tree) (node_label example_tree)
              (node_kind example_tree) True (keptChildren ''VOLT'' example_tree)
              (node_data example_tree) (level example_tree))"
    using filter_characterisation [of example_tree "''VOLT''"] dr kn by simp
  then have r: "filteredTree ''VOLT'' example_tree =
       Some (TreeNode ''root'' ''Model 103'' (Some ''Meter'') model True
               (keptChildren ''VOLT'' example_tree) (ModelData example_model) 0)"
    using example_root by simp
  from l r dr k kn example_leaf_matches show ?thesis
    by simp
qed

text \<open>
  C1 as stated sets the expanded flag when a child is kept, and has the result a copy of
  the node otherwise. The node of the point \<open>Max\<close> in the sample tree is a leaf, not
  expanded, and matches \<open>LIMIT\<close> by its description; it keeps no child, and the result
  is not the node itself: its flag is set.
\<close>

theorem filter_leaf_expanded_counterexample:
  "example_leaf \<in> set (nodes example_tree)
   \<and> selfMatches ''LIMIT'' example_leaf
   \<and> children example_leaf = [] \<and> keptChildren ''LIMIT'' example_leaf = []
   \<and> \<not> isExpanded example_leaf
   \<and> filteredTree ''LIMIT'' example_leaf \<noteq> Some example_leaf
   \<and> map_option isExpanded (filteredTree ''LIMIT'' example_leaf) = Some True"
proof -
  have "example_leaf \<in> set (nodes example_tree)"
    by code_simp
  moreover have "children example_leaf = [] \<and> keptChildren ''LIMIT'' example_leaf = []
     \<and> \<not> isExpanded example_leaf
     \<and> filteredTree ''LIMIT'' example_leaf \<noteq> Some example_leaf
     \<and> map_option isExpanded (filteredTree ''LIMIT'' example_leaf) = Some True"
    by code_simp
  ultimately show ?thesis
    using example_leaf_matches by simp
qed

lemma subseq_kept:
  assumes "\<And>c r. c \<in> set cs \<Longrightarrow> f c = Some r \<Longrightarrow> subseq (g r) (g c)"
  shows "subseq (concat (map g (List.map_filter f cs))) (concat (map g cs))"
  using assms
proof (induction cs)
  case Nil
  then show ?case by (simp add: List.map_filter_simps)
next
  case (Cons c cs)
  have rest: "subseq (concat (map g (List.map_filter f cs))) (concat (map g cs))"
    using Cons by simp
  show ?case
  proof (cases "f c")
    case None
    then show ?thesis using rest by (simp add: List.map_filter_simps subseq_drop_many)
  next
    case (Some r)
    then have "subseq (g r) (g c)" using Cons.prems by simp
    then show ?thesis using rest Some
      by (simp add: List.map_filter_simps list_emb_append_mono)
  qed
qed

lemma filterNode_subseq:
  "filterNode t n = Some r \<Longrightarrow> core r = core n \<and> subseq (map core (nodes r)) (map core (nodes n))"
proof (induction t n arbitrary: r rule: filterNode.induct)
  case (1 t i n l ty e cs d lv)
  let ?node = "TreeNode i n l ty e cs d lv"
  let ?kept = "List.map_filter (filterNode t) cs"
  from "1.prems" have r: "r = TreeNode i n l ty True ?kept d lv"
    by (simp only: filterNode_eq [of t ?node] TreeNode.sel split: if_splits) simp_all
  have "subseq (concat (map (\<lambda>x. map core (nodes x)) ?kept)) (concat (map (\<lambda>x. map core (nodes x)) cs))"
    by (rule subseq_kept) (use "1.IH" in blast)
  then have k: "subseq (map core (concat (map nodes ?kept))) (map core (concat (map nodes cs)))"
    by (simp add: map_concat comp_def)
  have c: "core r = core ?node"
    by (simp add: r core_def)
  have nr: "map core (nodes r) = core ?node # map core (concat (map nodes ?kept))"
    unfolding r by (simp add: core_def)
  have nn: "map core (nodes ?node) = core ?node # map core (concat (map nodes cs))"
    by simp
  have "subseq (map core (nodes r)) (map core (nodes ?node))"
    unfolding nr nn using k by (rule subseq_Cons2)
  with c show ?case by simp
qed

lemma subseq_set_subset: "subseq xs ys \<Longrightarrow> set xs \<subseteq> set ys"
  by (induction rule: list_emb.induct) auto

text \<open>
  C10. Every node of a filter result carries the id, name, label, kind, data and level of
  a node of the input tree: the root those of the input's root, and all nodes, in
  preorder, those of a subsequence of the input's nodes. So the ids of the result are ids
  of the input, and where the input's ids are distinct (as in a built tree) an id taken
  from the result addresses, in the unfiltered tree, the node it stands for.
\<close>

theorem filter_frame:
  "filteredTree t n = Some r \<Longrightarrow>
     core r = core n
     \<and> subseq (map core (nodes r)) (map core (nodes n))
     \<and> set (map node_id (nodes r)) \<subseteq> set (map node_id (nodes n))
     \<and> (distinct (map node_id (nodes n)) \<longrightarrow>
          (\<forall>x \<in> set (nodes r). \<forall>y \<in> set (nodes n). node_id y = node_id x \<longrightarrow> core y = core x))"
proof -
  assume a: "filteredTree t n = Some r"
  have s: "core r = core n \<and> subseq (map core (nodes r)) (map core (nodes n))"
  proof (cases "t = []")
    case True
    with a show ?thesis by (simp add: filteredTree_def)
  next
    case False
    with a show ?thesis by (simp add: filteredTree_def filterNode_subseq)
  qed
  then have incl: "set (map core (nodes r)) \<subseteq> set (map core (nodes n))"
    by (simp only: subseq_set_subset)
  have ids: "set (map node_id (nodes r)) \<subseteq> set (map node_id (nodes n))"
  proof
    fix i assume "i \<in> set (map node_id (nodes r))"
    then obtain x where x: "x \<in> set (nodes r)" "i = node_id x" by auto
    then have "core x \<in> set (map core (nodes n))" using incl by auto
    then obtain y where y: "y \<in> set (nodes n)" "core y = core x" by auto
    then have "node_id y = i" using x by (simp add: core_def)
    with y(1) show "i \<in> set (map node_id (nodes n))" by auto
  qed
  have uniq: "\<forall>x \<in> set (nodes r). \<forall>y \<in> set (nodes n). node_id y = node_id x \<longrightarrow> core y = core x"
    if d: "distinct (map node_id (nodes n))"
  proof (intro ballI impI)
    fix x y assume x: "x \<in> set (nodes r)" and y: "y \<in> set (nodes n)" and e: "node_id y = node_id x"
    from x have "core x \<in> set (map core (nodes n))" using incl by auto
    then obtain z where z: "z \<in> set (nodes n)" "core z = core x" by auto
    then have "node_id z = node_id y" using e by (simp add: core_def)
    moreover have "inj_on node_id (set (nodes n))" using d by (simp add: distinct_map)
    ultimately have "z = y" using y z(1) by (auto dest: inj_onD)
    then show "core y = core x" using z by simp
  qed
  from s ids uniq show ?thesis by (intro conjI impI) simp_all
qed

theorem filter_frame_witness:
  "filteredTree ''volt'' example_tree = Some (the (filteredTree ''volt'' example_tree))
   \<and> map node_id (nodes (the (filteredTree ''volt'' example_tree))) =
       [''root'', ''root_group'', ''root_group_point_0'', ''root_group_group_0'',
        ''root_group_group_0_point_0'']
   \<and> core (the (filteredTree ''volt'' example_tree)) = core example_tree
   \<and> subseq (map core (nodes (the (filteredTree ''volt'' example_tree))))
         (map core (nodes example_tree))
   \<and> set (map node_id (nodes (the (filteredTree ''volt'' example_tree))))
       \<subseteq> set (map node_id (nodes example_tree))"
proof -
  have ids: "map node_id (nodes (the (filteredTree ''volt'' example_tree))) =
       [''root'', ''root_group'', ''root_group_point_0'', ''root_group_group_0'',
        ''root_group_group_0_point_0'']"
    by code_simp
  have "filteredTree ''volt'' example_tree \<noteq> None"
    by code_simp
  then have some: "filteredTree ''volt'' example_tree = Some (the (filteredTree ''volt'' example_tree))"
    by simp
  from filter_frame [OF some] ids some show ?thesis
    by (intro conjI) simp_all
qed

section \<open>Catalog indexing\<close>

subsection \<open>The id and the name of a descriptor\<close>

lemma takeWhile_digits_dot:
  "\<forall>c \<in> set ds. is_digit c \<Longrightarrow> takeWhile is_digit (ds @ CHR ''.'' # r) = ds"
  by (simp add: takeWhile_append2 dot_not_digit)

lemma dropWhile_digits_dot:
  "\<forall>c \<in> set ds. is_digit c \<Longrightarrow> dropWhile is_digit (ds @ CHR ''.'' # r) = CHR ''.'' # r"
  by (simp add: dropWhile_append2 dot_not_digit)

lemma match_here_intro:
  assumes "ds \<noteq> []" "\<forall>c \<in> set ds. is_digit c"
  shows "match_here (''model_'' @ ds @ ''.json'' @ post) = Some ds"
  using assms by (simp add: match_here_def takeWhile_digits_dot dropWhile_digits_dot dot_not_digit)

lemma match_here_elim:
  assumes "match_here s = Some ds"
  shows "\<exists>post. s = ''model_'' @ ds @ ''.json'' @ post \<and> ds \<noteq> [] \<and> (\<forall>c \<in> set ds. is_digit c)"
proof -
  from assms have p: "prefix ''model_'' s"
    by (simp add: match_here_def split: if_splits)
  then obtain rest where s: "s = ''model_'' @ rest"
    by (auto simp: prefix_def)
  then have r: "drop 6 s = rest" by simp
  from assms p have ds: "ds = takeWhile is_digit rest" "ds \<noteq> []"
      and j: "prefix ''.json'' (dropWhile is_digit rest)"
    unfolding match_here_def r by (simp_all add: Let_def split: if_splits)
  from j obtain post where "dropWhile is_digit rest = ''.json'' @ post"
    by (auto simp: prefix_def)
  then have "rest = ds @ ''.json'' @ post"
    using takeWhile_dropWhile_id [of is_digit rest] ds(1) by simp
  moreover have "\<forall>c \<in> set ds. is_digit c"
    unfolding ds(1) by (auto dest: set_takeWhileD)
  ultimately show ?thesis using s ds(2) by auto
qed

lemma occurs_at_Nil: "\<not> occurs_at [] p ds"
  by (simp add: occurs_at_def)

lemma occurs_at_0: "occurs_at s 0 ds = (match_here s = Some ds)"
proof
  assume "occurs_at s 0 ds"
  then obtain post where "s = ''model_'' @ ds @ ''.json'' @ post" "ds \<noteq> []" "\<forall>c \<in> set ds. is_digit c"
    by (auto simp: occurs_at_def)
  then show "match_here s = Some ds"
    using match_here_intro by blast
next
  assume "match_here s = Some ds"
  from match_here_elim [OF this] show "occurs_at s 0 ds"
    unfolding occurs_at_def by (metis append_Nil list.size(3))
qed

lemma occurs_at_Suc: "occurs_at (c # cs) (Suc p) ds = occurs_at cs p ds"
proof
  assume "occurs_at (c # cs) (Suc p) ds"
  then obtain pre post where a: "c # cs = pre @ ''model_'' @ ds @ ''.json'' @ post" "length pre = Suc p"
      "ds \<noteq> []" "\<forall>c \<in> set ds. is_digit c"
    unfolding occurs_at_def by blast
  from a(2) obtain x pre' where pre: "pre = x # pre'" "length pre' = p"
    by (cases pre) auto
  with a(1) have "cs = pre' @ ''model_'' @ ds @ ''.json'' @ post" by simp
  with pre(2) a(3,4) show "occurs_at cs p ds"
    unfolding occurs_at_def by blast
next
  assume "occurs_at cs p ds"
  then obtain pre post where a: "cs = pre @ ''model_'' @ ds @ ''.json'' @ post" "length pre = p"
      "ds \<noteq> []" "\<forall>c \<in> set ds. is_digit c"
    unfolding occurs_at_def by blast
  then have "c # cs = (c # pre) @ ''model_'' @ ds @ ''.json'' @ post" "length (c # pre) = Suc p"
    by simp_all
  with a(3,4) show "occurs_at (c # cs) (Suc p) ds"
    unfolding occurs_at_def by blast
qed

lemma occurs_at_unique: "occurs_at s p ds \<Longrightarrow> occurs_at s p ds' \<Longrightarrow> ds = ds'"
proof (induction s arbitrary: p)
  case Nil
  then show ?case by (simp add: occurs_at_Nil)
next
  case (Cons c cs)
  show ?case
  proof (cases p)
    case 0
    with Cons.prems show ?thesis by (simp add: occurs_at_0)
  next
    case (Suc q)
    with Cons.prems have "occurs_at cs q ds" "occurs_at cs q ds'"
      by (simp_all add: occurs_at_Suc)
    then show ?thesis by (rule Cons.IH)
  qed
qed

lemma match_found:
  "match_model_id s = Some ds \<Longrightarrow>
     \<exists>p. occurs_at s p ds \<and> (\<forall>q ds'. occurs_at s q ds' \<longrightarrow> p \<le> q)"
proof (induction s)
  case Nil
  then show ?case by simp
next
  case (Cons c cs)
  show ?case
  proof (cases "match_here (c # cs)")
    case (Some d0)
    with Cons.prems have "d0 = ds" by simp
    with Some have "occurs_at (c # cs) 0 ds" by (simp add: occurs_at_0)
    then show ?thesis by blast
  next
    case None
    with Cons.prems have "match_model_id cs = Some ds" by simp
    from Cons.IH [OF this] obtain p where p: "occurs_at cs p ds"
        "\<forall>q ds'. occurs_at cs q ds' \<longrightarrow> p \<le> q"
      by blast
    have "Suc p \<le> q" if o: "occurs_at (c # cs) q ds'" for q ds'
    proof (cases q)
      case 0
      with o None show ?thesis by (simp add: occurs_at_0)
    next
      case (Suc q')
      with o have "occurs_at cs q' ds'" by (simp add: occurs_at_Suc)
      with p(2) Suc show ?thesis by auto
    qed
    moreover from p(1) have "occurs_at (c # cs) (Suc p) ds" by (simp add: occurs_at_Suc)
    ultimately show ?thesis by blast
  qed
qed

lemma match_complete: "occurs_at s q ds \<Longrightarrow> match_model_id s \<noteq> None"
proof (induction s arbitrary: q)
  case Nil
  then show ?case by (simp add: occurs_at_Nil)
next
  case (Cons c cs)
  show ?case
  proof (cases "match_here (c # cs)")
    case (Some d0)
    then show ?thesis by simp
  next
    case None
    with Cons.prems obtain q' where "q = Suc q'"
      by (cases q) (auto simp: occurs_at_0)
    with Cons.prems have "occurs_at cs q' ds" by (simp add: occurs_at_Suc)
    from Cons.IH [OF this] None show ?thesis by simp
  qed
qed

lemma match_first:
  assumes "occurs_at s p ds" "\<forall>q ds'. occurs_at s q ds' \<longrightarrow> p \<le> q"
  shows "match_model_id s = Some ds"
proof -
  from match_complete [OF assms(1)] obtain d0 where d0: "match_model_id s = Some d0"
    by auto
  from match_found [OF d0] obtain p0 where p0: "occurs_at s p0 d0"
      "\<forall>q ds'. occurs_at s q ds' \<longrightarrow> p0 \<le> q"
    by blast
  from assms p0 have "p = p0" by (meson le_antisym)
  with assms(1) p0(1) have "ds = d0" using occurs_at_unique by blast
  with d0 show ?thesis by simp
qed

lemma match_none: "(\<forall>q ds. \<not> occurs_at s q ds) \<Longrightarrow> match_model_id s = None"
  using match_found by (cases "match_model_id s") blast+

text \<open>
  C8, as the code has it. The id of the descriptor is resolved in this order: (1) when
  the file name contains \<^verbatim>\<open>model_<digits>.json\<close>, the digits directly followed by
  \<^verbatim>\<open>.json\<close>, the id is the decimal value of the digits of the first such occurrence,
  whatever id the document carries, for a value below \<open>2^53\<close>, where the parsed number
  is exact; (2) otherwise the id of the document when it has one; (3) otherwise 0. For \<^verbatim>\<open>model_103.json\<close> and a document with only a group labelled
  \<open>Meter\<close> the descriptor has id 103, name \<^verbatim>\<open>model_103\<close> and label \<open>Meter\<close>.
\<close>

theorem extract_id_resolution:
  "(occurs_at s p ds \<and> (\<forall>q ds'. occurs_at s q ds' \<longrightarrow> p \<le> q) \<and> decimal_value ds < 2 ^ 53 \<longrightarrow>
      (\<exists>info. extractModelInfo s (Json_record d) = Inr info
         \<and> info_id info = int (decimal_value ds)))
   \<and> ((\<forall>q ds'. \<not> occurs_at s q ds') \<longrightarrow>
      (\<exists>info. extractModelInfo s (Json_record d) = Inr info
         \<and> info_id info = (case doc_id d of Some n \<Rightarrow> n | None \<Rightarrow> 0)))
   \<and> extractModelInfo ''model_103.json'' (Json_record meter_document) =
       Inr \<lparr>info_id = 103, info_name = ''model_103'', info_label = Some ''Meter'',
            info_desc = None\<rparr>"
proof -
  have a: "\<exists>info. extractModelInfo s (Json_record d) = Inr info
         \<and> info_id info = int (decimal_value ds)"
    if o: "occurs_at s p ds" "\<forall>q ds'. occurs_at s q ds' \<longrightarrow> p \<le> q"
  proof -
    from o(1) have "\<forall>c \<in> set ds. is_digit c"
      unfolding occurs_at_def by blast
    then have "parseInt ds = decimal_value ds"
      by (rule parseInt_decimal_value)
    then show ?thesis
      using match_first [OF o] by simp
  qed
  have b: "\<exists>info. extractModelInfo s (Json_record d) = Inr info
         \<and> info_id info = (case doc_id d of Some n \<Rightarrow> n | None \<Rightarrow> 0)"
    if "\<forall>q ds'. \<not> occurs_at s q ds'"
    using match_none [OF that] by (simp split: option.splits)
  have c: "extractModelInfo ''model_103.json'' (Json_record meter_document) =
       Inr \<lparr>info_id = 103, info_name = ''model_103'', info_label = Some ''Meter'',
            info_desc = None\<rparr>"
    by code_simp
  from a b c show ?thesis by blast
qed

theorem extract_id_resolution_witness:
  "occurs_at ''model_103.json'' 0 ''103'' \<and> decimal_value ''103'' < 2 ^ 53
   \<and> (\<exists>info. extractModelInfo ''model_103.json'' (Json_record (id_document 7)) = Inr info
         \<and> info_id info = 103)
   \<and> (\<forall>q ds'. \<not> occurs_at ''readme.json'' q ds')
   \<and> (\<exists>info. extractModelInfo ''readme.json'' (Json_record (id_document 7)) = Inr info
         \<and> info_id info = 7)"
proof -
  have o: "occurs_at ''model_103.json'' 0 ''103''"
    unfolding occurs_at_0 by code_simp
  have p: "int (decimal_value ''103'') = 103"
    by (simp add: decimal_digit_def)
  have v: "decimal_value ''103'' < 2 ^ 53"
    by (simp add: decimal_digit_def)
  have "match_model_id ''readme.json'' = None"
    by code_simp
  then have n: "\<forall>q ds'. \<not> occurs_at ''readme.json'' q ds'"
    using match_complete by blast
  have i: "(case doc_id (id_document 7) of Some n \<Rightarrow> n | None \<Rightarrow> 0) = 7"
    by (simp add: id_document_def)
  from extract_id_resolution [of "''model_103.json''" 0 "''103''" "id_document 7"] o v
  have "\<exists>info. extractModelInfo ''model_103.json'' (Json_record (id_document 7)) = Inr info
         \<and> info_id info = 103"
    unfolding p by blast
  moreover from extract_id_resolution [of "''readme.json''" 0 "''103''" "id_document 7"] n
  have "\<exists>info. extractModelInfo ''readme.json'' (Json_record (id_document 7)) = Inr info
         \<and> info_id info = 7"
    unfolding i by blast
  ultimately show ?thesis using o n v by blast
qed

text \<open>
  C8 as stated takes the pattern to be \<^verbatim>\<open>model_<digits>\<close>. The file name
  \<^verbatim>\<open>model_103_v2.json\<close> contains \<^verbatim>\<open>model_103\<close>, yet the id is the document's 7: the
  digits are not followed by \<^verbatim>\<open>.json\<close>.
\<close>

theorem extract_id_counterexample:
  "extractModelInfo ''model_103_v2.json'' (Json_record (id_document 7)) =
       Inr \<lparr>info_id = 7, info_name = ''model_103_v2'', info_label = None, info_desc = None\<rparr>
   \<and> ''model_103_v2.json'' = ''model_'' @ ''103'' @ ''_v2.json''"
  by code_simp

text \<open>
  C9. The name of the descriptor should be the file name without its one trailing
  \<^verbatim>\<open>.json\<close>. \<^verbatim>\<open>filename.replace('.json', '')\<close> removes the first occurrence instead:
  for \<^verbatim>\<open>model.json.v2.json\<close>, which ends in \<^verbatim>\<open>.json\<close>, the name is \<^verbatim>\<open>model.v2.json\<close>
  and not \<^verbatim>\<open>model.json.v2\<close>; for \<^verbatim>\<open>a.json.bak\<close>, which does not end in \<^verbatim>\<open>.json\<close>, the
  name is \<^verbatim>\<open>a.bak\<close> and not the file name unchanged.
\<close>

theorem extract_name_first_occurrence:
  "extractModelInfo ''model.json.v2.json'' (Json_record (id_document 7)) =
       Inr \<lparr>info_id = 7, info_name = ''model.v2.json'', info_label = None, info_desc = None\<rparr>
   \<and> strip_json_suffix ''model.json.v2.json'' = ''model.json.v2''
   \<and> endsWith ''model.json.v2.json'' ''.json''
   \<and> extractModelInfo ''a.json.bak'' (Json_record (id_document 7)) =
       Inr \<lparr>info_id = 7, info_name = ''a.bak'', info_label = None, info_desc = None\<rparr>
   \<and> strip_json_suffix ''a.json.bak'' = ''a.json.bak''"
  by code_simp

subsection \<open>Assembling the catalog\<close>

lemma getAllModelsWithMetadata_eq:
  "getModelList response = Inr files \<Longrightarrow>
     getAllModelsWithMetadata response documents = Inr (sort_key info_id (loaded documents files))"
  by (simp only: getAllModelsWithMetadata_def sum.case map_the_filter loaded_def)

lemma load_file_None:
  "(load_file documents file = None) =
     (documents (file_name file) = None \<or> documents (file_name file) = Some Json_null)"
proof (cases "documents (file_name file)")
  case None
  then show ?thesis by (simp add: load_file_def getModel_def)
next
  case (Some doc)
  then show ?thesis
    by (cases doc) (simp_all add: load_file_def getModel_def split: option.splits)
qed

lemma load_file_Some:
  "(load_file documents file = Some info) =
     (\<exists>d e. documents (file_name file) = Some (Json_record d)
        \<and> extractModelInfo (file_name file) (Json_record d) = Inr e
        \<and> info = ExtractedInfo.extend e (ModelInfo.fields (file_name file)))"
proof (cases "documents (file_name file)")
  case None
  then show ?thesis by (simp add: load_file_def getModel_def)
next
  case (Some doc)
  then show ?thesis
    by (cases doc) (auto simp: load_file_def getModel_def split: option.splits)
qed

lemma loaded_files:
  "map filename (loaded documents files) =
     map file_name (filter (\<lambda>file. load_file documents file \<noteq> None) files)"
proof (induction files)
  case Nil
  show ?case by (simp add: loaded_def List.map_filter_simps)
next
  case (Cons f fs)
  show ?case
  proof (cases "load_file documents f")
    case None
    with Cons show ?thesis by (simp add: loaded_def List.map_filter_simps)
  next
    case (Some info)
    then have "filename info = file_name f"
      by (auto simp: load_file_Some ExtractedInfo.defs ModelInfo.defs)
    with Some Cons show ?thesis by (simp add: loaded_def List.map_filter_simps)
  qed
qed

text \<open>
  C5. When the listing request succeeds, \<^verbatim>\<open>getAllModelsWithMetadata\<close> returns and does
  not throw, whatever the document requests do. Its result holds exactly the descriptors
  of the listed files whose fetch and extraction succeeded (a file fails when its request
  fails or its document is \<^verbatim>\<open>null\<close>), is sorted by ascending id, and keeps descriptors
  of equal id in the order of the listing. In the sample listing of five files one request
  fails; the ids 50, 2, 2, 10 of the others come out as 2, 2, 10, 50, the two files of id 2
  in listing order.
\<close>

theorem catalog_partial_sorted_stable:
  "getModelList response = Inr files \<Longrightarrow>
     (\<exists>res. getAllModelsWithMetadata response documents = Inr res
        \<and> mset res = mset (loaded documents files)
        \<and> sorted (map info_id res)
        \<and> (\<forall>k. filter (\<lambda>m. info_id m = k) res = filter (\<lambda>m. info_id m = k) (loaded documents files)))
     \<and> map filename (loaded documents files) =
         map file_name (filter (\<lambda>file. load_file documents file \<noteq> None) files)
     \<and> (\<forall>file. (load_file documents file = None) =
           (documents (file_name file) = None \<or> documents (file_name file) = Some Json_null))
     \<and> (\<forall>file info. (load_file documents file = Some info) =
           (\<exists>d e. documents (file_name file) = Some (Json_record d)
              \<and> extractModelInfo (file_name file) (Json_record d) = Inr e
              \<and> info = ExtractedInfo.extend e (ModelInfo.fields (file_name file))))"
proof -
  assume l: "getModelList response = Inr files"
  let ?res = "sort_key info_id (loaded documents files)"
  have "getAllModelsWithMetadata response documents = Inr ?res"
    using l by (rule getAllModelsWithMetadata_eq)
  moreover have "mset ?res = mset (loaded documents files)"
    by simp
  moreover have "sorted (map info_id ?res)"
    by simp
  moreover have "\<forall>k. filter (\<lambda>m. info_id m = k) ?res = filter (\<lambda>m. info_id m = k) (loaded documents files)"
    by (simp add: sort_key_stable)
  ultimately have "\<exists>res. getAllModelsWithMetadata response documents = Inr res
        \<and> mset res = mset (loaded documents files)
        \<and> sorted (map info_id res)
        \<and> (\<forall>k. filter (\<lambda>m. info_id m = k) res = filter (\<lambda>m. info_id m = k) (loaded documents files))"
    by (intro exI [of _ ?res] conjI)
  then show ?thesis
    by (intro conjI allI) (assumption, rule loaded_files, rule load_file_None, rule load_file_Some)
qed

theorem catalog_partial_sorted_stable_witness:
  "getModelList (Some example_files) = Inr example_files
   \<and> map info_id (loaded example_documents example_files) = [50, 2, 2, 10]
   \<and> map filename (loaded example_documents example_files) =
       [''model_50.json'', ''model_2.json'', ''copy_of_model_2.json'', ''model_10.json'']
   \<and> (\<exists>res. getAllModelsWithMetadata (Some example_files) example_documents = Inr res
        \<and> sorted (map info_id res)
        \<and> map info_id res = [2, 2, 10, 50]
        \<and> map filename res =
            [''model_2.json'', ''copy_of_model_2.json'', ''model_10.json'', ''model_50.json''])"
proof -
  have l: "getModelList (Some example_files) = Inr example_files"
    by code_simp
  have a: "map info_id (loaded example_documents example_files) = [50, 2, 2, 10]"
    by code_simp
  have b: "map filename (loaded example_documents example_files) =
       [''model_50.json'', ''model_2.json'', ''copy_of_model_2.json'', ''model_10.json'']"
    by code_simp
  have e: "map_sum id (map (\<lambda>m. (info_id m, filename m)))
        (getAllModelsWithMetadata (Some example_files) example_documents)
      = Inr [(2, ''model_2.json''), (2, ''copy_of_model_2.json''), (10, ''model_10.json''),
             (50, ''model_50.json'')]"
    by code_simp
  from catalog_partial_sorted_stable [OF l, of example_documents, THEN conjunct1]
  obtain res where r: "getAllModelsWithMetadata (Some example_files) example_documents = Inr res
        \<and> mset res = mset (loaded example_documents example_files)
        \<and> sorted (map info_id res)
        \<and> (\<forall>k. filter (\<lambda>m. info_id m = k) res
              = filter (\<lambda>m. info_id m = k) (loaded example_documents example_files))" ..
  note r1 = r [THEN conjunct1]
  note r2 = r [THEN conjunct2, THEN conjunct2, THEN conjunct1]
  from e have p: "map (\<lambda>m. (info_id m, filename m)) res
      = [(2, ''model_2.json''), (2, ''copy_of_model_2.json''), (10, ''model_10.json''),
         (50, ''model_50.json'')]"
    by (simp only: r1 map_sum.simps sum.inject)
  have "map info_id res = map fst (map (\<lambda>m. (info_id m, filename m)) res)"
    by (simp only: map_map comp_def fst_conv)
  then have i: "map info_id res = [2, 2, 10, 50]"
    by (simp only: p list.map fst_conv)
  have "map filename res = map snd (map (\<lambda>m. (info_id m, filename m)) res)"
    by (simp only: map_map comp_def snd_conv)
  then have f: "map filename res =
         [''model_2.json'', ''copy_of_model_2.json'', ''model_10.json'', ''model_50.json'']"
    by (simp only: p list.map snd_conv)
  have "\<exists>res. getAllModelsWithMetadata (Some example_files) example_documents = Inr res
        \<and> sorted (map info_id res)
        \<and> map info_id res = [2, 2, 10, 50]
        \<and> map filename res =
            [''model_2.json'', ''copy_of_model_2.json'', ''model_10.json'', ''model_50.json'']"
    using r1 r2 i f by (intro exI [of _ res] conjI)
  with l a b show ?thesis
    by (intro conjI)
qed

subsection \<open>Categories\<close>

lemma push_model_fill:
  "push_model key m (map (\<lambda>(k, c). (k, c\<lparr>models := f k\<rparr>)) cats)
     = map (\<lambda>(k, c). (k, c\<lparr>models := (if k = key then f k @ [m] else f k)\<rparr>)) cats"
  by (induction cats) (auto simp: push_model_def)

lemma foldl_push_fill:
  "foldl (\<lambda>categories m. push_model (category_key (info_id m)) m categories)
      (map (\<lambda>(k, c). (k, c\<lparr>models := f k\<rparr>)) cats) ms
     = map (\<lambda>(k, c). (k, c\<lparr>models := f k @ filter (\<lambda>m. category_key (info_id m) = k) ms\<rparr>)) cats"
proof (induction ms arbitrary: f)
  case Nil
  show ?case by simp
next
  case (Cons m ms)
  have "foldl (\<lambda>categories m. push_model (category_key (info_id m)) m categories)
      (map (\<lambda>(k, c). (k, c\<lparr>models := f k\<rparr>)) cats) (m # ms)
     = map (\<lambda>(k, c). (k, c\<lparr>models :=
            (if k = category_key (info_id m) then f k @ [m] else f k)
              @ filter (\<lambda>m. category_key (info_id m) = k) ms\<rparr>)) cats"
    by (simp only: foldl_Cons push_model_fill Cons.IH)
  also have "\<dots> = map (\<lambda>(k, c). (k, c\<lparr>models := f k
              @ filter (\<lambda>m. category_key (info_id m) = k) (m # ms)\<rparr>)) cats"
    by (rule map_cong) auto
  finally show ?case .
qed

lemma categories_init_fill:
  "categories_init = map (\<lambda>(k, c). (k, c\<lparr>models := []\<rparr>)) categories_init"
  by (simp add: categories_init_def)

lemma categorize_fill:
  "foldl (\<lambda>categories m. push_model (category_key (info_id m)) m categories) categories_init ms
     = map (\<lambda>(k, c). (k, c\<lparr>models := filter (\<lambda>m. category_key (info_id m) = k) ms\<rparr>))
         categories_init"
  by (subst categories_init_fill) (simp only: foldl_push_fill [of "\<lambda>k. []"] append_Nil)

lemma categorizeModels_eq:
  "categorizeModels ms =
     map (\<lambda>(k, c). (k, c\<lparr>models := filter (\<lambda>m. category_key (info_id m) = k) ms\<rparr>))
       (filter (\<lambda>(k, c). \<exists>m \<in> set ms. category_key (info_id m) = k) categories_init)"
  unfolding categorizeModels_def categorize_fill
  by (simp add: filter_map comp_def split_def filter_empty_conv)

lemma category_key_in_table: "category_key i \<in> set (map fst bucket_table)"
  by (simp add: category_key_def bucket_table_def)

lemma table_keys: "map fst categories_init = map fst bucket_table"
  by (simp add: categories_init_def bucket_table_def)

lemma category_key_iff:
  "(category_key i = ''1-99'') = (i < 100)"
  "(category_key i = ''100-199'') = (100 \<le> i \<and> i < 200)"
  "(category_key i = ''200-299'') = (200 \<le> i \<and> i < 300)"
  "(category_key i = ''300-399'') = (300 \<le> i \<and> i < 400)"
  "(category_key i = ''400-499'') = (400 \<le> i \<and> i < 500)"
  "(category_key i = ''500-599'') = (500 \<le> i \<and> i < 600)"
  "(category_key i = ''600-699'') = (600 \<le> i \<and> i < 700)"
  "(category_key i = ''700-799'') = (700 \<le> i \<and> i < 800)"
  "(category_key i = ''800-899'') = (800 \<le> i \<and> i < 900)"
  "(category_key i = ''900+'') = (900 \<le> i)"
  by (simp_all add: category_key_def)

lemma category_key_bounds:
  assumes "0 \<le> i" "(k, lo, hi) \<in> set bucket_table"
  shows "(category_key i = k) = in_bounds i lo hi"
proof -
  from assms(2) have "(k, lo, hi) = (''1-99'', 0, Some 100) \<or> (k, lo, hi) = (''100-199'', 100, Some 200)
    \<or> (k, lo, hi) = (''200-299'', 200, Some 300) \<or> (k, lo, hi) = (''300-399'', 300, Some 400)
    \<or> (k, lo, hi) = (''400-499'', 400, Some 500) \<or> (k, lo, hi) = (''500-599'', 500, Some 600)
    \<or> (k, lo, hi) = (''600-699'', 600, Some 700) \<or> (k, lo, hi) = (''700-799'', 700, Some 800)
    \<or> (k, lo, hi) = (''800-899'', 800, Some 900) \<or> (k, lo, hi) = (''900+'', 900, None)"
    unfolding bucket_table_def by (simp only: set_simps insert_iff empty_iff simp_thms)
  then show ?thesis
    using assms(1)
    by (elim disjE; elim Pair_inject; hypsubst; simp only: category_key_iff in_bounds_def option.case;
        simp)
qed

lemma categorize_keys:
  "map fst (categorizeModels ms) =
     filter (\<lambda>k. \<exists>m \<in> set ms. category_key (info_id m) = k) (map fst bucket_table)"
  by (simp add: categorizeModels_eq table_keys [symmetric] filter_map comp_def split_def)

lemma categorize_member:
  assumes "(k, c) \<in> set (categorizeModels ms)"
  shows "models c = filter (\<lambda>m. category_key (info_id m) = k) ms \<and> models c \<noteq> []
     \<and> (k, c\<lparr>models := []\<rparr>) \<in> set categories_init"
proof -
  from assms obtain c0 where c0: "(k, c0) \<in> set categories_init"
      "\<exists>m \<in> set ms. category_key (info_id m) = k"
      "c = c0\<lparr>models := filter (\<lambda>m. category_key (info_id m) = k) ms\<rparr>"
    by (auto simp: categorizeModels_eq)
  from c0(1) have "models c0 = []"
    by (auto simp: categories_init_def)
  then have "c0\<lparr>models := []\<rparr> = c0" by simp
  with c0 show ?thesis by (auto simp: filter_empty_conv)
qed

lemma categorize_has_bucket:
  assumes "m \<in> set ms"
  shows "\<exists>c. (category_key (info_id m), c) \<in> set (categorizeModels ms) \<and> m \<in> set (models c)"
proof -
  from category_key_in_table [of "info_id m"]
  obtain c0 where c0: "(category_key (info_id m), c0) \<in> set categories_init"
    unfolding table_keys [symmetric] by auto
  let ?c = "c0\<lparr>models := filter (\<lambda>x. category_key (info_id x) = category_key (info_id m)) ms\<rparr>"
  have "(category_key (info_id m), ?c) \<in> set (categorizeModels ms)"
    unfolding categorizeModels_eq using c0 assms by (auto simp: image_iff intro!: bexI [of _ "(category_key (info_id m), c0)"])
  moreover have "m \<in> set (models ?c)" using assms by simp
  ultimately show ?thesis by blast
qed

text \<open>
  C6. \<^verbatim>\<open>categorizeModels\<close> returns the buckets of the fixed table that have a member,
  in table order and without the empty ones; the members of a bucket are the input
  descriptors whose id selects its key, in input order; every input descriptor is in
  exactly one bucket. For a non-negative id the key selected is the one whose bounds
  (lower inclusive, upper exclusive, none above 900) contain the id: 0 and 99 select
  \<open>1-99\<close>, 100 selects \<open>100-199\<close>, 899 selects \<open>800-899\<close>, 900 selects \<open>900+\<close>.
\<close>

theorem categorize_buckets:
  "map fst (categorizeModels ms) =
       filter (\<lambda>k. \<exists>m \<in> set ms. category_key (info_id m) = k) (map fst bucket_table)
   \<and> distinct (map fst (categorizeModels ms))
   \<and> (\<forall>(k, c) \<in> set (categorizeModels ms).
         models c = filter (\<lambda>m. category_key (info_id m) = k) ms \<and> models c \<noteq> []
         \<and> (k, c\<lparr>models := []\<rparr>) \<in> set categories_init)
   \<and> (\<forall>m \<in> set ms. \<exists>!k. \<exists>c. (k, c) \<in> set (categorizeModels ms) \<and> m \<in> set (models c))
   \<and> (\<forall>i \<ge> 0. \<forall>(k, lo, hi) \<in> set bucket_table. (category_key i = k) = in_bounds i lo hi)
   \<and> category_key 0 = ''1-99'' \<and> category_key 99 = ''1-99'' \<and> category_key 100 = ''100-199''
   \<and> category_key 899 = ''800-899'' \<and> category_key 900 = ''900+''"
proof -
  have d: "distinct (map fst (categorizeModels ms))"
    unfolding categorize_keys by (rule distinct_filter) (simp add: bucket_table_def)
  have mem: "\<forall>(k, c) \<in> set (categorizeModels ms).
         models c = filter (\<lambda>m. category_key (info_id m) = k) ms \<and> models c \<noteq> []
         \<and> (k, c\<lparr>models := []\<rparr>) \<in> set categories_init"
    using categorize_member by blast
  have one: "\<exists>!k. \<exists>c. (k, c) \<in> set (categorizeModels ms) \<and> m \<in> set (models c)"
    if m: "m \<in> set ms" for m
  proof (rule ex1I [of _ "category_key (info_id m)"])
    show "\<exists>c. (category_key (info_id m), c) \<in> set (categorizeModels ms) \<and> m \<in> set (models c)"
      using m by (rule categorize_has_bucket)
  next
    fix k assume "\<exists>c. (k, c) \<in> set (categorizeModels ms) \<and> m \<in> set (models c)"
    then obtain c where "(k, c) \<in> set (categorizeModels ms)" "m \<in> set (models c)" by blast
    then have "m \<in> set (filter (\<lambda>m. category_key (info_id m) = k) ms)"
      using categorize_member by metis
    then show "k = category_key (info_id m)" by simp
  qed
  have b: "\<forall>i \<ge> 0. \<forall>(k, lo, hi) \<in> set bucket_table. (category_key i = k) = in_bounds i lo hi"
    using category_key_bounds by blast
  have e: "category_key 0 = ''1-99''" "category_key 99 = ''1-99''" "category_key 100 = ''100-199''"
      "category_key 899 = ''800-899''" "category_key 900 = ''900+''"
    by (simp_all only: category_key_iff) simp_all
  show ?thesis
    using categorize_keys [of ms] d mem one b e by (intro conjI ballI) simp_all
qed

theorem categorize_buckets_witness:
  "map fst (categorizeModels example_infos) = [''1-99'', ''100-199'', ''800-899'', ''900+'']
   \<and> hd (categorizeModels example_infos) \<in> set (categorizeModels example_infos)
   \<and> fst (hd (categorizeModels example_infos)) = ''1-99''
   \<and> models (snd (hd (categorizeModels example_infos)))
       = [mk_info 0 ''a.json'', mk_info 99 ''b.json'', mk_info 5 ''d.json'']
   \<and> (0::int) \<le> 899 \<and> (''800-899'', 800, Some 900) \<in> set bucket_table
   \<and> in_bounds 899 800 (Some 900)"
proof -
  note th = categorize_buckets [of example_infos]
  let ?h = "hd (categorizeModels example_infos)"
  have keys: "filter (\<lambda>k. \<exists>m \<in> set example_infos. category_key (info_id m) = k)
        (map fst bucket_table) = [''1-99'', ''100-199'', ''800-899'', ''900+'']"
    by code_simp
  have low: "filter (\<lambda>m. category_key (info_id m) = ''1-99'') example_infos
      = [mk_info 0 ''a.json'', mk_info 99 ''b.json'', mk_info 5 ''d.json'']"
    by code_simp
  have tab: "(''800-899'', 800, Some 900) \<in> set bucket_table"
    by (simp add: bucket_table_def)
  have a: "map fst (categorizeModels example_infos) = [''1-99'', ''100-199'', ''800-899'', ''900+'']"
    using th [THEN conjunct1] by (simp only: keys)
  then have ne: "categorizeModels example_infos \<noteq> []"
    by auto
  then have h: "?h \<in> set (categorizeModels example_infos)"
    by simp
  from a ne have k: "fst ?h = ''1-99''"
    by (cases "categorizeModels example_infos") simp_all
  from h have "(fst ?h, snd ?h) \<in> set (categorizeModels example_infos)"
    by simp
  with th [THEN conjunct2, THEN conjunct2, THEN conjunct1]
  have "models (snd ?h) = filter (\<lambda>m. category_key (info_id m) = fst ?h) example_infos"
    by blast
  then have b: "models (snd ?h) = [mk_info 0 ''a.json'', mk_info 99 ''b.json'', mk_info 5 ''d.json'']"
    by (simp only: k low)
  have "\<forall>i\<ge>0. \<forall>(k, lo, hi) \<in> set bucket_table. (category_key i = k) = in_bounds i lo hi"
    by (rule th [THEN conjunct2, THEN conjunct2, THEN conjunct2, THEN conjunct2, THEN conjunct1])
  then have "\<forall>(k, lo, hi) \<in> set bucket_table. (category_key 899 = k) = in_bounds 899 lo hi"
    by simp
  with tab have "(category_key 899 = ''800-899'') = in_bounds 899 800 (Some 900)"
    by blast
  then have c: "in_bounds 899 800 (Some 900)"
    using th by blast
  from a h k b c tab show ?thesis
    by simp
qed

section \<open>Model selection\<close>

lemma invalid_format_message_nonempty: "invalid_format_message \<noteq> []"
  by (simp add: invalid_format_message_def)


lemma getModel_message_nonempty: "getModel documents f = Inl err \<Longrightarrow> message err \<noteq> []"
  by (auto simp: getModel_def split: option.splits)

lemma validate_message_nonempty: "validate doc = Inl err \<Longrightarrow> message err \<noteq> []"
  by (cases doc) (auto simp: invalid_format_message_nonempty split: if_splits)

text \<open>
  The check treats the id 0 as an absent id: a record with a group and the id 0 is
  rejected with the invalid-format message.
\<close>

lemma validate_id_zero:
  "validate (Json_record (d\<lparr>doc_id := Some 0\<rparr>)) = Inl (Error invalid_format_message)"
  by simp





end
